theory Spec2Isabelle
  imports Main "HOL-Library.Multiset"
begin

section \<open>Log entries and log sources (lib/log-source.js)\<close>

text \<open>
  A log entry is the object \<^verbatim>\<open>{ date, msg }\<close>. Dates are compared as numbers
  (milliseconds), so a date is an integer here.
\<close>

record log_entry =
  date :: int
  msg :: string

text \<open>
  A \<^verbatim>\<open>LogSource\<close> object. The fields \<^verbatim>\<open>last\<close> and \<^verbatim>\<open>drained\<close> are the class's own.
  The fields \<^verbatim>\<open>bufferCount\<close>, \<^verbatim>\<open>loading\<close> and \<^verbatim>\<open>id\<close> are written by
  \<^verbatim>\<open>initializeSources\<close> of the asynchronous merge; the class does not set them, and
  the synchronous merge never touches them.
  The pseudo-random generator and the clock are abstracted by \<open>upcoming\<close>: the entries
  that \<^verbatim>\<open>getNextPseudoRandomEntry\<close> will still produce with a date not after now,
  in the order of their production. When the list is used up, the next generated
  entry lies in the future and the source signals exhaustion.
\<close>

record log_source =
  upcoming :: "log_entry list"
  last_entry :: log_entry
  drained :: bool
  bufferCount :: int
  loading :: bool
  src_id :: nat

text \<open>
  The constructor sets \<^verbatim>\<open>drained\<close> to false and \<^verbatim>\<open>last\<close> to some first value, and
  nothing else. What the object holds in \<^verbatim>\<open>bufferCount\<close>, \<^verbatim>\<open>loading\<close> and \<^verbatim>\<open>id\<close>
  when it reaches a merge is not the constructor's business: these are the arguments
  \<open>b\<close>, \<open>l\<close> and \<open>k\<close>. The merges are verified for every list of sources that
  are not drained, whatever their other fields hold.
\<close>

definition LogSource :: "log_entry list \<Rightarrow> int \<Rightarrow> bool \<Rightarrow> nat \<Rightarrow> log_source" where
  "LogSource es b l k =
     \<lparr>upcoming = es, last_entry = \<lparr>date = 0, msg = []\<rparr>, drained = False,
      bufferCount = b, loading = l, src_id = k\<rparr>"

text \<open>
  The synchronous part shared by \<^verbatim>\<open>pop\<close> and \<^verbatim>\<open>popAsync\<close>:
  \<^verbatim>\<open>this.last = this.getNextPseudoRandomEntry(); if (this.last.date > now) this.drained = true\<close>.
\<close>

definition advance :: "log_source \<Rightarrow> log_source" where
  "advance s =
     (case upcoming s of
        [] \<Rightarrow> s\<lparr>drained := True\<rparr>
      | e # es \<Rightarrow> s\<lparr>upcoming := es, last_entry := e\<rparr>)"

text \<open>What both functions hand out: \<^verbatim>\<open>this.drained ? false : this.last\<close>.\<close>

definition current :: "log_source \<Rightarrow> log_entry option" where
  "current s = (if drained s then None else Some (last_entry s))"

definition pop :: "log_source \<Rightarrow> log_entry option \<times> log_source" where
  "pop s = (let s' = advance s in (current s', s'))"

section \<open>The priority queue\<close>

text \<open>
  Modelled from the spec: the class \<^verbatim>\<open>MinPriorityQueue\<close> of the package
  \<^verbatim>\<open>@datastructures-js/priority-queue\<close> is not part of the repository. The spec
  describes it as a structure with \<^verbatim>\<open>insert\<close>, \<^verbatim>\<open>popMin\<close> and \<^verbatim>\<open>size\<close> that
  extracts in minimal order of the timestamp. It is a list in the order of insertion;
  \<open>pq_pop\<close> takes out the first element that no other element is smaller than.
  The key of a candidate is \<^verbatim>\<open>log.date\<close>, which is \<^verbatim>\<open>undefined\<close> when \<^verbatim>\<open>log\<close> is
  \<^verbatim>\<open>false\<close>; a comparison with \<^verbatim>\<open>undefined\<close> is false in JavaScript. Where the
  package lets a candidate without a date come out among the others cannot be read
  off the repository. The rule here is one possibility, and nothing below is stated
  about it: of a queue that holds such a candidate the theorems say which candidates
  are taken out, never in which order.
\<close>

record candidate =
  log :: "log_entry option"
  source :: nat

definition key :: "candidate \<Rightarrow> int option" where
  "key c = map_option date (log c)"

fun js_less :: "int option \<Rightarrow> int option \<Rightarrow> bool" where
  "js_less (Some a) (Some b) = (a < b)"
| "js_less _ _ = False"

definition pq_push :: "candidate \<Rightarrow> candidate list \<Rightarrow> candidate list" where
  "pq_push c q = q @ [c]"

definition is_min :: "candidate list \<Rightarrow> candidate \<Rightarrow> bool" where
  "is_min q c = list_all (\<lambda>d. \<not> js_less (key d) (key c)) q"

definition pq_pop :: "candidate list \<Rightarrow> (candidate \<times> candidate list) option" where
  "pq_pop q =
     (case find (is_min q) q of
        None \<Rightarrow> None
      | Some c \<Rightarrow> Some (c, remove1 c q))"

section \<open>The printer\<close>

text \<open>
  The printer is an external collaborator; only the calls made on it matter. They are
  recorded in order. \<^verbatim>\<open>print\<close> receives whatever the merge passes, which is \<^verbatim>\<open>false\<close>
  (\<open>None\<close>) when the merge passes a source's exhaustion signal on.
\<close>

datatype printer_event = Print "log_entry option" | Done

section \<open>The synchronous merge (solution/sync-sorted-merge.js)\<close>

record sync_state =
  s_heap :: "nat \<Rightarrow> log_source"
  pq :: "candidate list"
  s_printer :: "printer_event list"

text \<open>
  The first loop: \<^verbatim>\<open>const log = source.pop(); pq.push({ log, source })\<close> for every
  source, with no test of \<^verbatim>\<open>log\<close>.
\<close>

fun initial_fill :: "nat list \<Rightarrow> sync_state \<Rightarrow> sync_state" where
  "initial_fill [] st = st"
| "initial_fill (i # is) st =
     (case pop (s_heap st i) of
        (l, s') \<Rightarrow>
          initial_fill is
            (st\<lparr>s_heap := (s_heap st)(i := s'), pq := pq_push \<lparr>log = l, source = i\<rparr> (pq st)\<rparr>))"

text \<open>One pass of the second loop, for the candidate just taken out of the queue.\<close>

definition sync_body :: "candidate \<Rightarrow> candidate list \<Rightarrow> sync_state \<Rightarrow> sync_state" where
  "sync_body c q st =
     (let st1 = st\<lparr>pq := q, s_printer := s_printer st @ [Print (log c)]\<rparr>;
          i = source c
      in if \<not> drained (s_heap st1 i) then
           (case pop (s_heap st1 i) of
              (l, s') \<Rightarrow>
                (let st2 = st1\<lparr>s_heap := (s_heap st1)(i := s')\<rparr>
                 in case l of
                      Some e \<Rightarrow> st2\<lparr>pq := pq_push \<lparr>log = Some e, source = i\<rparr> (pq st2)\<rparr>
                    | None \<Rightarrow> st2))
         else st1)"

text \<open>
  The second loop, \<^verbatim>\<open>while (!pq.isEmpty())\<close>: \<open>pq_pop\<close> is \<open>None\<close> exactly on the
  empty queue. The weight that decreases in every pass counts, for each candidate in
  the queue, the entries its source can still produce.
\<close>

definition sync_weight :: "(nat \<Rightarrow> log_source) \<Rightarrow> candidate list \<Rightarrow> nat" where
  "sync_weight h q = (\<Sum>c\<leftarrow>q. 2 * length (upcoming (h (source c))) + 1)"

text \<open>The loop ends for every state; this is proved below, with the weight.\<close>

function sync_loop :: "sync_state \<Rightarrow> sync_state" where
  "sync_loop st =
     (case pq_pop (pq st) of
        None \<Rightarrow> st
      | Some (c, q) \<Rightarrow> sync_loop (sync_body c q st))"
  by pat_completeness auto

text \<open>
  The sources passed to a merge are the objects at the addresses \<open>0 ..< length srcs\<close>
  of the heap. No other address is ever used; it holds a drained source.
\<close>

definition no_source :: log_source where
  "no_source =
     \<lparr>upcoming = [], last_entry = \<lparr>date = 0, msg = []\<rparr>, drained = True,
      bufferCount = 0, loading = False, src_id = 0\<rparr>"

definition heap_of :: "log_source list \<Rightarrow> nat \<Rightarrow> log_source" where
  "heap_of srcs i = (if i < length srcs then srcs ! i else no_source)"

text \<open>
  The whole function: the queue is filled from every source, drained, and
  \<^verbatim>\<open>printer.done()\<close> is called. The result is the sequence of calls made on the
  printer.
\<close>

definition syncSortedMerge :: "log_source list \<Rightarrow> printer_event list" where
  "syncSortedMerge srcs =
     s_printer
       (sync_loop
          (initial_fill [0..<length srcs] \<lparr>s_heap = heap_of srcs, pq = [], s_printer = []\<rparr>))
     @ [Done]"

section \<open>The asynchronous merge (solution/async-sorted-merge.js)\<close>

text \<open>
  The source objects are shared: the array \<^verbatim>\<open>logSources\<close>, the candidates in the
  priority queue and the callbacks of the pending promises all refer to the same
  objects. So the state holds a heap of source objects, and the array, the candidates
  and the promises hold addresses. A pending promise is the address of the source whose
  \<^verbatim>\<open>popAsync\<close> call it belongs to: what it resolves with is read from the source when
  it settles, as in \<^verbatim>\<open>P.delay(...).then(() => (this.drained ? false : this.last))\<close>.
\<close>

datatype error = PriorityQueueExceededMaxSize | TypeError

record state =
  heap :: "nat \<Rightarrow> log_source"
  logSources :: "nat list"
  priorityQueue :: "candidate list"
  promiseQueue :: "nat list"
  printer :: "printer_event list"

fun findNextLogSourceToQueue ::
  "(nat \<Rightarrow> log_source) \<Rightarrow> nat list \<Rightarrow> nat option \<Rightarrow> nat option" where
  "findNextLogSourceToQueue h [] minSource = minSource"
| "findNextLogSourceToQueue h (i # is) minSource =
     (if loading (h i) then findNextLogSourceToQueue h is minSource
      else if bufferCount (h i) = 0 then Some i
      else if (case minSource of
                 None \<Rightarrow> True
               | Some m \<Rightarrow> bufferCount (h i) < bufferCount (h m))
      then findNextLogSourceToQueue h is (Some i)
      else findNextLogSourceToQueue h is minSource)"

text \<open>
  \<^verbatim>\<open>queueLogFromSource\<close> up to its return: the flag is set, \<^verbatim>\<open>popAsync\<close> advances the
  source at once, and the promise is pushed. The callback runs later, in \<open>settle\<close>.
\<close>

definition queueLogFromSource :: "nat \<Rightarrow> state \<Rightarrow> state" where
  "queueLogFromSource i st =
     st\<lparr>heap := (heap st)(i := advance ((heap st i)\<lparr>loading := True\<rparr>)),
        promiseQueue := promiseQueue st @ [i]\<rparr>"

text \<open>The callback \<^verbatim>\<open>(log) => { if (log) { push; bufferCount++ } loading = false }\<close>.\<close>

definition settle :: "nat \<Rightarrow> state \<Rightarrow> state" where
  "settle i st =
     (let s = heap st i in
      case current s of
        Some l \<Rightarrow>
          st\<lparr>priorityQueue := pq_push \<lparr>log = Some l, source = i\<rparr> (priorityQueue st),
             heap := (heap st)(i := s\<lparr>bufferCount := bufferCount s + 1, loading := False\<rparr>)\<rparr>
      | None \<Rightarrow> st\<lparr>heap := (heap st)(i := s\<lparr>loading := False\<rparr>)\<rparr>)"

definition addNextLogToQueue :: "state \<Rightarrow> state" where
  "addNextLogToQueue st =
     (case findNextLogSourceToQueue (heap st) (logSources st) None of
        Some i \<Rightarrow> queueLogFromSource i st
      | None \<Rightarrow> st)"

definition allSourcesHaveBeenRead :: "state \<Rightarrow> bool" where
  "allSourcesHaveBeenRead st = list_all (\<lambda>i. bufferCount (heap st i) > 0) (logSources st)"

text \<open>
  \<^verbatim>\<open>priorityQueue.pop()\<close> on an empty queue gives no object, and taking it apart
  raises a TypeError.
\<close>

definition printNextLogFromQueue :: "state \<Rightarrow> error + state" where
  "printNextLogFromQueue st =
     (case pq_pop (priorityQueue st) of
        None \<Rightarrow> Inl TypeError
      | Some (c, q) \<Rightarrow>
          Inr (st\<lparr>priorityQueue := q,
                  printer := printer st @ [Print (log c)],
                  heap := (heap st)(source c :=
                    (heap st (source c))\<lparr>bufferCount := bufferCount (heap st (source c)) - 1\<rparr>)\<rparr>))"

definition priorityQueueIsFull :: "candidate list \<Rightarrow> nat \<Rightarrow> nat list \<Rightarrow> error + bool" where
  "priorityQueueIsFull q maxSize pr =
     (if length q > maxSize then Inl PriorityQueueExceededMaxSize
      else Inr (length q + length pr \<ge> maxSize))"

definition promiseQueueIsFull :: "nat list \<Rightarrow> nat \<Rightarrow> bool" where
  "promiseQueueIsFull pr maxSize = (length pr \<ge> maxSize)"

definition allSourcesAreLoading :: "state \<Rightarrow> bool" where
  "allSourcesAreLoading st = list_all (\<lambda>i. loading (heap st i)) (logSources st)"

definition initializeSources :: "state \<Rightarrow> state" where
  "initializeSources st =
     st\<lparr>heap :=
          fold (\<lambda>(index, i) h.
                  h(i := (h i)\<lparr>bufferCount := 0, loading := False, src_id := index + 1\<rparr>))
            (enumerate 0 (logSources st)) (heap st)\<rparr>"

definition continueLoop :: "state \<Rightarrow> bool" where
  "continueLoop st = (length (logSources st) > 0 \<or> length (priorityQueue st) \<noteq> 0)"

subsection \<open>Awaiting the batch\<close>

text \<open>
  \<^verbatim>\<open>await Promise.all(promiseQueue)\<close> returns when every pending promise has settled.
  Each one settles after a random delay, so the callbacks run in some order of the
  batch. The order is a parameter: \<open>completion_order picks xs\<close> takes the elements of
  \<open>xs\<close> out one by one, the next at the position the next pick names, and every
  order of \<open>xs\<close> arises from some picks.
\<close>

fun completion_order :: "nat list \<Rightarrow> 'a list \<Rightarrow> 'a list" where
  "completion_order ps [] = []"
| "completion_order [] xs = xs"
| "completion_order (p # ps) xs =
     (let k = p mod length xs
      in xs ! k # completion_order ps (take k xs @ drop (Suc k) xs))"

definition await_all :: "nat list \<Rightarrow> state \<Rightarrow> state" where
  "await_all picks st =
     (fold settle (completion_order picks (promiseQueue st)) st)\<lparr>promiseQueue := []\<rparr>"

subsection \<open>One pass of the main loop\<close>

text \<open>
  The four parts of the loop body, in the order of the source. The two flags are
  computed at the top of the pass, before a fetch is added.
\<close>

definition admission :: "bool \<Rightarrow> state \<Rightarrow> state" where
  "admission fullPriorityQueue st =
     (if \<not> fullPriorityQueue then addNextLogToQueue st else st)"

definition drains :: "bool \<Rightarrow> bool \<Rightarrow> state \<Rightarrow> bool" where
  "drains fullPriorityQueue fullPromiseQueue st =
     (length (promiseQueue st) > 0 \<and>
      (fullPriorityQueue \<or> fullPromiseQueue \<or> allSourcesAreLoading st))"

definition drain :: "bool \<Rightarrow> bool \<Rightarrow> nat list \<Rightarrow> state \<Rightarrow> state" where
  "drain fullPriorityQueue fullPromiseQueue picks st =
     (if drains fullPriorityQueue fullPromiseQueue st then await_all picks st else st)"

definition emission :: "state \<Rightarrow> error + state" where
  "emission st = (if allSourcesHaveBeenRead st then printNextLogFromQueue st else Inr st)"

definition retire :: "state \<Rightarrow> state" where
  "retire st = st\<lparr>logSources := filter (\<lambda>i. \<not> drained (heap st i)) (logSources st)\<rparr>"

definition tick :: "nat \<Rightarrow> nat list \<Rightarrow> state \<Rightarrow> error + state" where
  "tick maxSize picks st =
     (case priorityQueueIsFull (priorityQueue st) maxSize (promiseQueue st) of
        Inl e \<Rightarrow> Inl e
      | Inr fullPriorityQueue \<Rightarrow>
          (let fullPromiseQueue = promiseQueueIsFull (promiseQueue st) 50;
               st1 = admission fullPriorityQueue st;
               st2 = drain fullPriorityQueue fullPromiseQueue picks st1
           in case emission st2 of
                Inl e \<Rightarrow> Inl e
              | Inr st3 \<Rightarrow> Inr (retire st3)))"

text \<open>
  The loop \<^verbatim>\<open>while (continueLoop(logSources, priorityQueue))\<close>, followed by
  \<^verbatim>\<open>printer.done()\<close>. The schedule \<open>sched\<close> gives the picks of each pass. A run
  that never leaves the loop has the value \<open>None\<close>.
\<close>

partial_function (option) main_loop ::
  "nat \<Rightarrow> (nat \<Rightarrow> nat list) \<Rightarrow> nat \<Rightarrow> state \<Rightarrow> (error + state) option" where
  "main_loop maxSize sched n st =
     (if continueLoop st then
        (case tick maxSize (sched n) st of
           Inl e \<Rightarrow> Some (Inl e)
         | Inr st' \<Rightarrow> main_loop maxSize sched (Suc n) st')
      else Some (Inr (st\<lparr>printer := printer st @ [Done]\<rparr>)))"

definition initial :: "log_source list \<Rightarrow> state" where
  "initial srcs =
     initializeSources
       \<lparr>heap = heap_of srcs, logSources = [0..<length srcs], priorityQueue = [],
        promiseQueue = [], printer = []\<rparr>"

definition asyncSortedMerge ::
  "(nat \<Rightarrow> nat list) \<Rightarrow> log_source list \<Rightarrow> (error + state) option" where
  "asyncSortedMerge sched srcs = main_loop (length srcs * 10) sched 0 (initial srcs)"

text \<open>The state at the top of pass \<open>n\<close>, when the loop gets that far without an error.\<close>

primrec passes :: "nat \<Rightarrow> (nat \<Rightarrow> nat list) \<Rightarrow> nat \<Rightarrow> state \<Rightarrow> error + state" where
  "passes maxSize sched 0 st = Inr st"
| "passes maxSize sched (Suc n) st =
     (case passes maxSize sched n st of
        Inl e \<Rightarrow> Inl e
      | Inr st' \<Rightarrow> if continueLoop st' then tick maxSize (sched n) st' else Inr st')"

text \<open>The equation of the main loop is the one to compute with.\<close>

declare main_loop.simps [code]

section \<open>The states a run goes through\<close>

text \<open>The callbacks of a batch, one after the other, and the states they pass through.\<close>

fun settle_points :: "nat list \<Rightarrow> state \<Rightarrow> state list" where
  "settle_points [] st = []"
| "settle_points (i # is) st = settle i st # settle_points is (settle i st)"

text \<open>The states a pass goes through, in order.\<close>

definition pass_points :: "nat \<Rightarrow> nat list \<Rightarrow> state \<Rightarrow> state list" where
  "pass_points maxSize picks st =
     (case priorityQueueIsFull (priorityQueue st) maxSize (promiseQueue st) of
        Inl e \<Rightarrow> []
      | Inr fullPriorityQueue \<Rightarrow>
          (let fullPromiseQueue = promiseQueueIsFull (promiseQueue st) 50;
               st1 = admission fullPriorityQueue st;
               st2 = drain fullPriorityQueue fullPromiseQueue picks st1
           in st1 #
              (if drains fullPriorityQueue fullPromiseQueue st1
               then settle_points (completion_order picks (promiseQueue st1)) st1
               else []) @
              st2 #
              (case emission st2 of
                 Inl e \<Rightarrow> []
               | Inr st3 \<Rightarrow> [st3, retire st3])))"

text \<open>
  The state of a pass at the test \<^verbatim>\<open>allSourcesHaveBeenRead(logSources)\<close>: after the
  admission and the await, before the print and before the drained sources are
  filtered out of the array.
\<close>

definition gate_point :: "nat \<Rightarrow> nat list \<Rightarrow> state \<Rightarrow> state" where
  "gate_point maxSize picks st =
     (case priorityQueueIsFull (priorityQueue st) maxSize (promiseQueue st) of
        Inl e \<Rightarrow> st
      | Inr fullPriorityQueue \<Rightarrow>
          drain fullPriorityQueue (promiseQueueIsFull (promiseQueue st) 50) picks
            (admission fullPriorityQueue st))"

text \<open>
  \<open>run_points sched srcs n\<close> lists the states that the run on the sources \<open>srcs\<close>
  goes through in pass \<open>n\<close>: the state at the top of the pass and, when the loop
  goes on, the states after each part of the pass and after each callback of the
  awaited batch.
\<close>

definition run_points :: "(nat \<Rightarrow> nat list) \<Rightarrow> log_source list \<Rightarrow> nat \<Rightarrow> state list" where
  "run_points sched srcs n =
     (case passes (length srcs * 10) sched n (initial srcs) of
        Inl e \<Rightarrow> []
      | Inr st \<Rightarrow>
          st # (if continueLoop st then pass_points (length srcs * 10) (sched n) st else []))"

section \<open>What is printed\<close>

text \<open>The arguments of the calls of \<^verbatim>\<open>print\<close>, in order.\<close>

fun printed :: "printer_event list \<Rightarrow> log_entry option list" where
  "printed [] = []"
| "printed (Print l # es) = l # printed es"
| "printed (Done # es) = printed es"

text \<open>
  A sequence of arguments of \<^verbatim>\<open>print\<close> is in non-decreasing order of the timestamp
  when each argument is an entry and the dates do not decrease.
\<close>

fun chronological :: "log_entry option list \<Rightarrow> bool" where
  "chronological [] = True"
| "chronological [l] = (l \<noteq> None)"
| "chronological (l # l' # ls) =
     (case (l, l') of
        (Some a, Some b) \<Rightarrow> date a \<le> date b \<and> chronological (l' # ls)
      | _ \<Rightarrow> False)"

text \<open>
  The gate in the words of the spec: every source that is live, that is, not drained,
  has at least one buffered entry.
\<close>

definition allLiveSourcesHaveBeenRead :: "state \<Rightarrow> bool" where
  "allLiveSourcesHaveBeenRead st =
     list_all (\<lambda>i. bufferCount (heap st i) \<ge> 1)
       (filter (\<lambda>i. \<not> drained (heap st i)) (logSources st))"

section \<open>Example data\<close>

text \<open>An entry with the given date.\<close>

definition entry :: "int \<Rightarrow> log_entry" where
  "entry t = \<lparr>date = t, msg = ''log''\<rparr>"

text \<open>
  Two sources: the first has late entries only, the second early ones. Here and below
  the fields that the constructor does not set hold values of no meaning.
\<close>

definition late_and_early :: "log_source list" where
  "late_and_early =
     [LogSource [entry 100, entry 101, entry 102] 7 True 5,
      LogSource [entry 1, entry 2, entry 3] (- 2) False 0]"

text \<open>The schedule in which every batch completes in the order of its fetches.\<close>

definition in_order :: "nat \<Rightarrow> nat list" where
  "in_order n = []"

text \<open>Two sources, the second of which is empty from the start.\<close>

definition one_and_none :: "log_source list" where
  "one_and_none = [LogSource [entry 1] 4 True 9, LogSource [] (- 1) True 2]"

text \<open>The same with two entries, and with the empty source first.\<close>

definition two_and_none :: "log_source list" where
  "two_and_none = [LogSource [entry 3, entry 4] 1 False 3, LogSource [] 6 True 0]"

definition none_and_two :: "log_source list" where
  "none_and_two = [LogSource [] 2 True 1, LogSource [entry 1, entry 2] (- 3) False 4]"

text \<open>Fifty-one sources of one entry each.\<close>

definition fifty_one :: "log_source list" where
  "fifty_one = replicate 51 (LogSource [entry 1] 3 True 8)"

section \<open>Invariants and measures\<close>

text \<open>
  \<open>resident st i\<close> counts the candidates of source \<open>i\<close> in the priority queue,
  \<open>pending st\<close> lists the promises whose callback has not run yet, and
  \<open>uncovered st\<close> lists the sources of the array that are idle with an empty buffer.
\<close>

definition resident :: "state \<Rightarrow> nat \<Rightarrow> nat" where
  "resident st i = length (filter (\<lambda>c. source c = i) (priorityQueue st))"

definition pending :: "state \<Rightarrow> nat list" where
  "pending st = filter (\<lambda>i. loading (heap st i)) (promiseQueue st)"

definition idle_empty :: "log_source \<Rightarrow> bool" where
  "idle_empty s = (\<not> drained s \<and> bufferCount s = 0 \<and> \<not> loading s)"

definition uncovered :: "state \<Rightarrow> nat list" where
  "uncovered st = filter (\<lambda>i. idle_empty (heap st i)) (logSources st)"

text \<open>What holds at every point of a run, also between two callbacks of one batch.\<close>

definition point_inv :: "nat \<Rightarrow> state \<Rightarrow> bool" where
  "point_inv maxSize st =
     (distinct (logSources st) \<and> distinct (promiseQueue st) \<and>
      (\<forall>i. bufferCount (heap st i) = int (resident st i)) \<and>
      (\<forall>i. loading (heap st i) \<longrightarrow> i \<in> set (promiseQueue st)) \<and>
      length (priorityQueue st) + length (pending st) + length (uncovered st) \<le> maxSize \<and>
      Done \<notin> set (printer st))"

text \<open>What holds in addition outside of an await: every promise in the queue is pending.\<close>

definition batch_inv :: "nat \<Rightarrow> state \<Rightarrow> bool" where
  "batch_inv maxSize st =
     (point_inv maxSize st \<and> (\<forall>i\<in>set (promiseQueue st). loading (heap st i)))"

text \<open>What holds at the top of a pass: no source of the array is drained.\<close>

definition head_inv :: "nat \<Rightarrow> state \<Rightarrow> bool" where
  "head_inv maxSize st =
     (batch_inv maxSize st \<and> (\<forall>i\<in>set (logSources st). \<not> drained (heap st i)))"

text \<open>
  The weight of a state: every source of the array that is not drained counts one more
  than the entries it can still produce; every candidate in the queue counts once and
  every promise twice.
\<close>

definition remaining :: "log_source \<Rightarrow> nat" where
  "remaining s = (if drained s then 0 else Suc (length (upcoming s)))"

definition weight :: "state \<Rightarrow> nat" where
  "weight st =
     3 * (\<Sum>i\<leftarrow>logSources st. remaining (heap st i))
     + length (priorityQueue st) + 2 * length (promiseQueue st)"

text \<open>The callback of \<^verbatim>\<open>forEach\<close> in \<^verbatim>\<open>initializeSources\<close>, named.\<close>

definition init_step :: "nat \<times> nat \<Rightarrow> (nat \<Rightarrow> log_source) \<Rightarrow> nat \<Rightarrow> log_source" where
  "init_step = (\<lambda>(index, i) h.
             h(i := (h i)\<lparr>bufferCount := 0, loading := False, src_id := index + 1\<rparr>))"

text \<open>
  While the first fetches are issued, nothing is awaited and nothing is printed: after
  \<open>n\<close> passes over \<open>k\<close> sources that are not empty, the first \<open>n\<close> sources are
  loading and their promises are in the promise queue.
\<close>

definition filling :: "nat \<Rightarrow> nat \<Rightarrow> state \<Rightarrow> bool" where
  "filling k n st =
     (logSources st = [0..<k] \<and> priorityQueue st = [] \<and> promiseQueue st = [0..<n] \<and>
      (\<forall>i. loading (heap st i) = (i < n)) \<and>
      (\<forall>i. bufferCount (heap st i) = 0) \<and>
      (\<forall>i<k. \<not> drained (heap st i)) \<and>
      (\<forall>i. n \<le> i \<and> i < k \<longrightarrow> upcoming (heap st i) \<noteq> []))"

text \<open>
  The entries of a source that are not in the priority queue yet: the one a pending
  promise will deliver, and the ones the source can still produce.
\<close>

definition future :: "state \<Rightarrow> nat \<Rightarrow> log_entry list" where
  "future st i =
     (if loading (heap st i) \<and> \<not> drained (heap st i) then [last_entry (heap st i)] else [])
     @ upcoming (heap st i)"

text \<open>The date of a candidate that holds an entry.\<close>

definition cand_date :: "candidate \<Rightarrow> int" where
  "cand_date c = (case log c of Some e \<Rightarrow> date e | None \<Rightarrow> 0)"

text \<open>
  What keeps the asynchronous output in order: every candidate holds an entry; the
  entries a source has yet to deliver are in order and not before its candidates;
  what is printed is in order and not after any candidate or any entry yet to be
  delivered; a drained source has nothing left, and a source outside the array is
  drained.
\<close>

definition order_inv :: "state \<Rightarrow> bool" where
  "order_inv st =
     ((\<forall>c\<in>set (priorityQueue st). log c \<noteq> None) \<and>
      (\<forall>i. sorted (map date (future st i))) \<and>
      (\<forall>c\<in>set (priorityQueue st). \<forall>f\<in>set (future st (source c)). cand_date c \<le> date f) \<and>
      chronological (printed (printer st)) \<and>
      (\<forall>l\<in>set (printed (printer st)). \<exists>e. l = Some e \<and>
          (\<forall>c\<in>set (priorityQueue st). date e \<le> cand_date c) \<and>
          (\<forall>i. \<forall>f\<in>set (future st i). date e \<le> date f)) \<and>
      (\<forall>i. drained (heap st i) \<longrightarrow> upcoming (heap st i) = []) \<and>
      (\<forall>i. i \<notin> set (logSources st) \<longrightarrow> drained (heap st i)))"

text \<open>
  The entries of a state: those printed, those in the priority queue, and those that
  the first \<open>k\<close> sources have not delivered yet.
\<close>

definition accounted :: "nat \<Rightarrow> state \<Rightarrow> log_entry option multiset" where
  "accounted k st =
     mset (printed (printer st)) + mset (map log (priorityQueue st))
     + mset (map Some (concat (map (future st) [0..<k])))"

text \<open>They are the entries of the sources, and the sources are the first \<open>k\<close>.\<close>

definition complete_inv :: "nat \<Rightarrow> log_entry list list \<Rightarrow> state \<Rightarrow> bool" where
  "complete_inv k ess st =
     (accounted k st = mset (map Some (concat ess)) \<and> (\<forall>i. k \<le> i \<longrightarrow> future st i = []))"

text \<open>
  A drained source has nothing left to produce, and a source that is not in the array
  is drained.
\<close>

definition closed_inv :: "state \<Rightarrow> bool" where
  "closed_inv st =
     ((\<forall>i. drained (heap st i) \<longrightarrow> upcoming (heap st i) = []) \<and>
      (\<forall>i. i \<notin> set (logSources st) \<longrightarrow> drained (heap st i)))"

text \<open>
  The same for the synchronous merge: the entries of a state, the sources that are
  covered by a candidate, the first loop unfolded by one source, and the order.
\<close>

definition s_accounted :: "nat \<Rightarrow> sync_state \<Rightarrow> log_entry option multiset" where
  "s_accounted k st =
     mset (printed (s_printer st)) + mset (map log (pq st))
     + mset (map Some (concat (map (\<lambda>i. upcoming (s_heap st i)) [0..<k])))"

text \<open>A source that can still produce an entry is not drained and has a candidate.\<close>

definition s_covered :: "nat \<Rightarrow> sync_state \<Rightarrow> bool" where
  "s_covered k st =
     (\<forall>i. upcoming (s_heap st i) \<noteq> [] \<longrightarrow>
        i < k \<and> \<not> drained (s_heap st i) \<and> (\<exists>c\<in>set (pq st). source c = i))"

text \<open>One pass of the first loop.\<close>

definition fill_one :: "nat \<Rightarrow> sync_state \<Rightarrow> sync_state" where
  "fill_one i st =
     st\<lparr>s_heap := (s_heap st)(i := advance (s_heap st i)),
        pq := pq_push \<lparr>log = current (advance (s_heap st i)), source = i\<rparr> (pq st)\<rparr>"

text \<open>The state between the two loops.\<close>

definition filled :: "log_source list \<Rightarrow> sync_state" where
  "filled srcs =
     initial_fill [0..<length srcs]
       \<lparr>s_heap = heap_of srcs, pq = [], s_printer = []\<rparr>"

text \<open>What keeps the synchronous output in order when no source is empty from the start.\<close>

definition s_order_inv :: "sync_state \<Rightarrow> bool" where
  "s_order_inv st =
     ((\<forall>c\<in>set (pq st). log c \<noteq> None) \<and>
      (\<forall>i. sorted (map date (upcoming (s_heap st i)))) \<and>
      (\<forall>c\<in>set (pq st). \<forall>f\<in>set (upcoming (s_heap st (source c))). cand_date c \<le> date f) \<and>
      chronological (printed (s_printer st)) \<and>
      (\<forall>l\<in>set (printed (s_printer st)). \<exists>e. l = Some e \<and>
          (\<forall>c\<in>set (pq st). date e \<le> cand_date c)))"

section \<open>Termination of the synchronous loop\<close>

lemma pq_pop_SomeD:
  assumes "pq_pop q = Some (c, q')"
  shows "c \<in> set q" and "q' = remove1 c q" and "is_min q c"
proof -
  from assms obtain d where d: "find (is_min q) q = Some d" and "c = d" "q' = remove1 d q"
    by (auto simp: pq_pop_def split: option.splits)
  from d have "d \<in> set q \<and> is_min q d"
    by (metis find_Some_iff nth_mem)
  with \<open>c = d\<close> \<open>q' = remove1 d q\<close>
  show "c \<in> set q" and "q' = remove1 c q" and "is_min q c" by simp_all
qed

lemma sync_weight_remove1:
  "c \<in> set q \<Longrightarrow>
   sync_weight h q = 2 * length (upcoming (h (source c))) + 1 + sync_weight h (remove1 c q)"
  unfolding sync_weight_def by (rule sum_list_map_remove1)

lemma sync_weight_mono:
  "length (upcoming s') \<le> length (upcoming (h i)) \<Longrightarrow>
   sync_weight (h(i := s')) q \<le> sync_weight h q"
  unfolding sync_weight_def by (induction q) auto

lemma sync_body_weight:
  assumes "pq_pop (pq st) = Some (c, q)"
  shows "sync_weight (s_heap (sync_body c q st)) (pq (sync_body c q st))
           < sync_weight (s_heap st) (pq st)"
proof -
  let ?h = "s_heap st" and ?i = "source c"
  from pq_pop_SomeD[OF assms] have mem: "c \<in> set (pq st)" and q: "q = remove1 c (pq st)"
    by simp_all
  have w: "sync_weight ?h (pq st) = 2 * length (upcoming (?h ?i)) + 1 + sync_weight ?h q"
    using sync_weight_remove1[OF mem] q by simp
  show ?thesis
  proof (cases "upcoming (?h ?i)")
    case Nil
    have "sync_weight (?h(?i := (?h ?i)\<lparr>drained := True\<rparr>)) q \<le> sync_weight ?h q"
      by (rule sync_weight_mono) simp
    with Nil w show ?thesis
      by (simp add: sync_body_def pop_def advance_def current_def Let_def)
  next
    case (Cons e es)
    have "sync_weight (?h(?i := (?h ?i)\<lparr>upcoming := es, last_entry := e\<rparr>)) q
            \<le> sync_weight ?h q"
      by (rule sync_weight_mono) (simp add: Cons)
    with Cons w show ?thesis
      by (simp add: sync_body_def pop_def advance_def current_def Let_def pq_push_def
          sync_weight_def)
  qed
qed

termination sync_loop
  by (relation "measure (\<lambda>st. sync_weight (s_heap st) (pq st))")
    (auto dest: sync_body_weight)

declare sync_loop.simps [simp del]

section \<open>Facts about the queue, the choice of a source and the order of completion\<close>

lemma mset_pick: "k < length xs \<Longrightarrow> mset (xs ! k # take k xs @ drop (Suc k) xs) = mset xs"
proof -
  assume k: "k < length xs"
  have "mset xs = mset (take k xs @ xs ! k # drop (Suc k) xs)"
    by (rule arg_cong[OF id_take_nth_drop[OF k]])
  also have "\<dots> = mset (xs ! k # take k xs @ drop (Suc k) xs)" by simp
  finally show ?thesis by simp
qed

lemma completion_order_mset: "mset (completion_order ps xs) = mset xs"
proof (induction ps xs rule: completion_order.induct)
  case (1 ps)
  show ?case by simp
next
  case (2 v va)
  show ?case by simp
next
  case (3 p ps v va)
  define xs where "xs = v # va"
  define k where "k = p mod length xs"
  have k: "k < length xs" by (simp add: k_def xs_def)
  have IH: "mset (completion_order ps (take k xs @ drop (Suc k) xs)) = mset (take k xs @ drop (Suc k) xs)"
    using 3 by (simp add: k_def xs_def)
  have "completion_order (p # ps) xs = xs ! k # completion_order ps (take k xs @ drop (Suc k) xs)"
    by (simp add: xs_def k_def Let_def)
  then have "mset (completion_order (p # ps) xs) = mset (xs ! k # take k xs @ drop (Suc k) xs)"
    using IH by simp
  with mset_pick[OF k] show ?case by (simp add: xs_def)
qed

text \<open>Every order of the batch is the order of completion for some picks.\<close>

lemma completion_order_any:
  "mset ys = mset xs \<Longrightarrow> \<exists>ps. completion_order ps xs = ys"
proof (induction ys arbitrary: xs)
  case Nil
  then show ?case by (intro exI[of _ "[]"]) simp
next
  case (Cons y ys)
  from Cons.prems have "y \<in> set xs" by (metis list.set_intros(1) set_mset_mset)
  then obtain k where k: "k < length xs" "xs ! k = y" by (auto simp: in_set_conv_nth)
  let ?rest = "take k xs @ drop (Suc k) xs"
  from mset_pick[OF k(1)] k(2) have "mset xs = add_mset y (mset ?rest)" by simp
  with Cons.prems have "mset ys = mset ?rest" by simp
  from Cons.IH[OF this] obtain ps where ps: "completion_order ps ?rest = ys" by blast
  from k(1) obtain v va where xs: "xs = v # va" by (cases xs) auto
  have "completion_order (k # ps) xs = xs ! k # completion_order ps ?rest"
    using k(1) unfolding xs by (simp add: Let_def)
  with ps k(2) show ?case by (intro exI[of _ "k # ps"]) simp
qed

lemma js_less_irrefl: "\<not> js_less a a"
  by (cases a) simp_all

lemma js_less_trans: "js_less a b \<Longrightarrow> js_less b c \<Longrightarrow> js_less a c"
  by (cases a; cases b; cases c) simp_all

lemma ex_is_min: "q \<noteq> [] \<Longrightarrow> \<exists>c\<in>set q. is_min q c"
proof (induction q)
  case Nil
  then show ?case by simp
next
  case (Cons x q)
  show ?case
  proof (cases "q = []")
    case True
    then show ?thesis by (simp add: is_min_def js_less_irrefl)
  next
    case False
    with Cons obtain c where c: "c \<in> set q" "is_min q c" by blast
    show ?thesis
    proof (cases "js_less (key x) (key c)")
      case True
      have "is_min (x # q) x"
        unfolding is_min_def list_all_iff
      proof
        fix d assume d: "d \<in> set (x # q)"
        show "\<not> js_less (key d) (key x)"
        proof (cases "d = x")
          case True
          then show ?thesis by (simp add: js_less_irrefl)
        next
          case False
          with d have "d \<in> set q" by simp
          with c(2) have "\<not> js_less (key d) (key c)"
            by (simp add: is_min_def list_all_iff)
          with \<open>js_less (key x) (key c)\<close> show ?thesis
            using js_less_trans by blast
        qed
      qed
      then show ?thesis by auto
    next
      case False
      with c have "is_min (x # q) c" by (simp add: is_min_def)
      with c show ?thesis by auto
    qed
  qed
qed

lemma pq_pop_None_iff: "pq_pop q = None \<longleftrightarrow> q = []"
proof
  assume "pq_pop q = None"
  then have "find (is_min q) q = None" by (simp add: pq_pop_def split: option.splits)
  then have "\<not> (\<exists>c\<in>set q. is_min q c)" by (simp add: find_None_iff)
  with ex_is_min show "q = []" by blast
qed (simp add: pq_pop_def)

lemma findNext_zero:
  "\<exists>j\<in>set is. \<not> loading (h j) \<and> bufferCount (h j) = 0 \<Longrightarrow>
   \<exists>i\<in>set is. findNextLogSourceToQueue h is m = Some i \<and> \<not> loading (h i) \<and> bufferCount (h i) = 0"
proof (induction "is" arbitrary: m)
  case Nil
  then show ?case by simp
next
  case (Cons a "is")
  show ?case
  proof (cases "loading (h a)")
    case True
    with Cons.prems have "\<exists>j\<in>set is. \<not> loading (h j) \<and> bufferCount (h j) = 0" by auto
    from Cons.IH[OF this, of m] True show ?thesis by auto
  next
    case False
    show ?thesis
    proof (cases "bufferCount (h a) = 0")
      case True
      with False show ?thesis by simp
    next
      case nz: False
      with Cons.prems have ex: "\<exists>j\<in>set is. \<not> loading (h j) \<and> bufferCount (h j) = 0" by auto
      from Cons.IH[OF ex, of m] Cons.IH[OF ex, of "Some a"] False nz show ?thesis
        by (cases "case m of None \<Rightarrow> True | Some m \<Rightarrow> bufferCount (h a) < bufferCount (h m)") auto
    qed
  qed
qed

lemma findNext_Cons:
  "findNextLogSourceToQueue h (a # is) m = Some i \<Longrightarrow>
   (\<not> loading (h a) \<and> bufferCount (h a) = 0 \<and> i = a) \<or>
   findNextLogSourceToQueue h is m = Some i \<or>
   (\<not> loading (h a) \<and> findNextLogSourceToQueue h is (Some a) = Some i)"
  by (simp split: if_splits)

lemma findNext_Some:
  "findNextLogSourceToQueue h is m = Some i \<Longrightarrow> (i \<in> set is \<and> \<not> loading (h i)) \<or> m = Some i"
proof (induction "is" arbitrary: m)
  case Nil
  then show ?case by simp
next
  case (Cons a "is")
  from findNext_Cons[OF Cons.prems] show ?case
  proof (elim disjE conjE)
    assume "findNextLogSourceToQueue h is m = Some i"
    from Cons.IH[OF this] show ?thesis by auto
  next
    assume "\<not> loading (h a)" "findNextLogSourceToQueue h is (Some a) = Some i"
    from Cons.IH[OF this(2)] this(1) show ?thesis by auto
  qed simp
qed

lemma findNext_Cons_None:
  "findNextLogSourceToQueue h (a # is) m = None \<Longrightarrow>
   (loading (h a) \<and> findNextLogSourceToQueue h is m = None) \<or>
   findNextLogSourceToQueue h is (Some a) = None \<or>
   (m \<noteq> None \<and> findNextLogSourceToQueue h is m = None)"
  by (cases m) (simp_all split: if_splits)

lemma findNext_None:
  "findNextLogSourceToQueue h is m = None \<Longrightarrow> m = None \<and> (\<forall>j\<in>set is. loading (h j))"
proof (induction "is" arbitrary: m)
  case Nil
  then show ?case by simp
next
  case (Cons a "is")
  from findNext_Cons_None[OF Cons.prems] show ?case
  proof (elim disjE conjE)
    assume "loading (h a)" "findNextLogSourceToQueue h is m = None"
    from Cons.IH[OF this(2)] this(1) show ?thesis by simp
  next
    assume "findNextLogSourceToQueue h is (Some a) = None"
    from Cons.IH[OF this] show ?thesis by simp
  next
    assume "m \<noteq> None" "findNextLogSourceToQueue h is m = None"
    from Cons.IH[OF this(2)] this(1) show ?thesis by simp
  qed
qed

section \<open>Invariants of the asynchronous merge\<close>

subsection \<open>Counting in lists without repetition\<close>

lemma length_filter_drop_one:
  assumes "distinct xs" "i \<in> set xs" "P i" "\<not> Q i" "\<forall>j. j \<noteq> i \<longrightarrow> Q j = P j"
  shows "Suc (length (filter Q xs)) = length (filter P xs)"
  using assms(1,2)
proof (induction xs)
  case Nil
  then show ?case by simp
next
  case (Cons x xs)
  show ?case
  proof (cases "x = i")
    case True
    with Cons.prems have "i \<notin> set xs" by simp
    then have "filter Q xs = filter P xs"
      using assms(5) by (intro filter_cong) auto
    with True assms(3,4) show ?thesis by simp
  next
    case False
    with Cons have "Suc (length (filter Q xs)) = length (filter P xs)" by simp
    with False assms(5) show ?thesis by simp
  qed
qed

lemma length_filter_same:
  assumes "\<And>j. j \<in> set xs \<Longrightarrow> Q j = P j"
  shows "length (filter Q xs) = length (filter P xs)"
proof -
  have "filter Q xs = filter P xs" using assms by (intro filter_cong) auto
  then show ?thesis by simp
qed

lemma length_filter_add_one:
  assumes "distinct xs" "\<forall>j. j \<noteq> i \<longrightarrow> Q j = P j"
  shows "length (filter Q xs) \<le> Suc (length (filter P xs))"
  using assms(1)
proof (induction xs)
  case Nil
  then show ?case by simp
next
  case (Cons x xs)
  show ?case
  proof (cases "x = i")
    case True
    with Cons.prems have "i \<notin> set xs" by simp
    then have "filter Q xs = filter P xs"
      using assms(2) by (intro filter_cong) auto
    then show ?thesis by simp
  next
    case False
    with Cons assms(2) show ?thesis by simp
  qed
qed

lemma sum_list_drop_one:
  fixes f g :: "nat \<Rightarrow> nat"
  assumes "distinct xs" "i \<in> set xs" "Suc (g i) = f i" "\<forall>j. j \<noteq> i \<longrightarrow> g j = f j"
  shows "Suc (sum_list (map g xs)) = sum_list (map f xs)"
  using assms(1,2)
proof (induction xs)
  case Nil
  then show ?case by simp
next
  case (Cons x xs)
  show ?case
  proof (cases "x = i")
    case True
    with Cons.prems have "i \<notin> set xs" by simp
    then have "map g xs = map f xs" using assms(4) by (intro map_cong) auto
    then have "sum_list (map g xs) = sum_list (map f xs)" by (rule arg_cong)
    with True assms(3) show ?thesis by simp
  next
    case False
    with Cons have "Suc (sum_list (map g xs)) = sum_list (map f xs)" by simp
    with False assms(4) show ?thesis by simp
  qed
qed

lemma sum_list_filter_zero:
  fixes f :: "nat \<Rightarrow> nat"
  assumes "\<And>j. \<not> P j \<Longrightarrow> f j = 0"
  shows "sum_list (map f (filter P xs)) = sum_list (map f xs)"
  using assms by (induction xs) simp_all

subsection \<open>The callback of a promise\<close>

lemma settle_fields [simp]:
  "logSources (settle i st) = logSources st"
  "promiseQueue (settle i st) = promiseQueue st"
  "printer (settle i st) = printer st"
  by (simp_all add: settle_def Let_def split: option.splits)

lemma settle_heap [simp]:
  "loading (heap (settle i st) j) = (j \<noteq> i \<and> loading (heap st j))"
  "drained (heap (settle i st) j) = drained (heap st j)"
  "upcoming (heap (settle i st) j) = upcoming (heap st j)"
  "bufferCount (heap (settle i st) j) =
     bufferCount (heap st j) + (if j = i \<and> \<not> drained (heap st i) then 1 else 0)"
  by (simp_all add: settle_def Let_def current_def split: option.splits)

lemma settle_queue:
  "priorityQueue (settle i st) =
     (if drained (heap st i) then priorityQueue st
      else priorityQueue st @ [\<lparr>log = Some (last_entry (heap st i)), source = i\<rparr>])"
  by (simp add: settle_def Let_def current_def pq_push_def)

lemma settle_resident:
  "resident (settle i st) j = resident st j + (if j = i \<and> \<not> drained (heap st i) then 1 else 0)"
  by (simp add: resident_def settle_queue)

lemma settle_pending:
  assumes "distinct (promiseQueue st)" "i \<in> set (promiseQueue st)" "loading (heap st i)"
  shows "Suc (length (pending (settle i st))) = length (pending st)"
  unfolding pending_def settle_fields
  by (rule length_filter_drop_one[OF assms(1,2)]) (simp_all add: assms(3))

lemma settle_uncovered:
  assumes "loading (heap st i)" "0 \<le> bufferCount (heap st i)"
  shows "uncovered (settle i st) = uncovered st"
  unfolding uncovered_def settle_fields
  using assms by (intro filter_cong) (auto simp: idle_empty_def)

lemma settle_point_inv:
  assumes inv: "point_inv m st" and l: "loading (heap st i)"
  shows "point_inv m (settle i st)"
proof -
  from inv have d: "distinct (promiseQueue st)"
    and b: "\<forall>j. bufferCount (heap st j) = int (resident st j)"
    and mem: "i \<in> set (promiseQueue st)"
    and le: "length (priorityQueue st) + length (pending st) + length (uncovered st) \<le> m"
    using l by (simp_all add: point_inv_def)
  from b have nn: "0 \<le> bufferCount (heap st i)" by simp
  have q: "length (priorityQueue (settle i st)) \<le> Suc (length (priorityQueue st))"
    by (simp add: settle_queue)
  from settle_pending[OF d mem l] settle_uncovered[OF l nn] q le
  have "length (priorityQueue (settle i st)) + length (pending (settle i st))
          + length (uncovered (settle i st)) \<le> m"
    by simp
  moreover have "\<forall>j. bufferCount (heap (settle i st) j) = int (resident (settle i st) j)"
    using b by (simp add: settle_resident)
  ultimately show ?thesis
    using inv by (simp add: point_inv_def)
qed

lemma fold_settle_fields [simp]:
  "logSources (fold settle is st) = logSources st"
  "promiseQueue (fold settle is st) = promiseQueue st"
  "printer (fold settle is st) = printer st"
  by (induction "is" arbitrary: st) simp_all

lemma fold_settle_heap [simp]:
  "loading (heap (fold settle is st) j) = (j \<notin> set is \<and> loading (heap st j))"
  "drained (heap (fold settle is st) j) = drained (heap st j)"
  "upcoming (heap (fold settle is st) j) = upcoming (heap st j)"
  by (induction "is" arbitrary: st) auto

lemma fold_settle_queue_length:
  "length (priorityQueue (fold settle is st)) \<le> length (priorityQueue st) + length is"
proof (induction "is" arbitrary: st)
  case Nil
  show ?case by simp
next
  case (Cons i "is")
  have "length (priorityQueue (settle i st)) \<le> Suc (length (priorityQueue st))"
    by (simp add: settle_queue)
  with Cons[of "settle i st"] show ?case by simp
qed

lemma fold_settle_queue_grows:
  "length (priorityQueue st) \<le> length (priorityQueue (fold settle is st))"
proof (induction "is" arbitrary: st)
  case Nil
  show ?case by simp
next
  case (Cons i "is")
  have "length (priorityQueue st) \<le> length (priorityQueue (settle i st))"
    by (simp add: settle_queue)
  with Cons[of "settle i st"] show ?case by simp
qed

lemma settle_points_inv:
  assumes "point_inv m st" "distinct is" "\<forall>i\<in>set is. loading (heap st i)"
  shows "point_inv m (fold settle is st) \<and> (\<forall>p\<in>set (settle_points is st). point_inv m p)"
  using assms
proof (induction "is" arbitrary: st)
  case Nil
  then show ?case by simp
next
  case (Cons i "is")
  from Cons.prems have 1: "point_inv m (settle i st)"
    by (intro settle_point_inv) simp_all
  from Cons.prems have 2: "distinct is" "\<forall>j\<in>set is. loading (heap (settle i st) j)"
    by auto
  from Cons.IH[OF 1 2] 1 show ?case by simp
qed

subsection \<open>Awaiting the batch\<close>

lemma completion_order_set [simp]: "set (completion_order ps xs) = set xs"
  using completion_order_mset[of ps xs] by (metis set_mset_mset)

lemma completion_order_distinct [simp]: "distinct (completion_order ps xs) = distinct xs"
  using completion_order_mset[of ps xs] by (metis distinct_count_atmost_1 set_mset_mset)

lemma completion_order_length [simp]: "length (completion_order ps xs) = length xs"
  using completion_order_mset[of ps xs] by (metis size_mset)

lemma await_all_fields [simp]:
  "logSources (await_all picks st) = logSources st"
  "promiseQueue (await_all picks st) = []"
  "printer (await_all picks st) = printer st"
  "drained (heap (await_all picks st) j) = drained (heap st j)"
  "upcoming (heap (await_all picks st) j) = upcoming (heap st j)"
  "loading (heap (await_all picks st) j) = (j \<notin> set (promiseQueue st) \<and> loading (heap st j))"
  by (simp_all add: await_all_def)

lemma await_all_batch_inv:
  assumes "batch_inv m st"
  shows "batch_inv m (await_all picks st)"
    and "\<forall>p\<in>set (settle_points (completion_order picks (promiseQueue st)) st). point_inv m p"
proof -
  let ?is = "completion_order picks (promiseQueue st)"
  let ?st' = "fold settle ?is st"
  from assms have p: "point_inv m st" and l: "\<forall>i\<in>set (promiseQueue st). loading (heap st i)"
    by (simp_all add: batch_inv_def)
  from p have d: "distinct ?is" by (simp add: point_inv_def)
  from settle_points_inv[OF p d] l
  have f: "point_inv m ?st'" and pts: "\<forall>p\<in>set (settle_points ?is st). point_inv m p"
    by simp_all
  from pts show "\<forall>p\<in>set (settle_points ?is st). point_inv m p" .
  from p have none: "\<forall>j. \<not> loading (heap ?st' j)" by (auto simp: point_inv_def)
  have "pending (?st'\<lparr>promiseQueue := []\<rparr>) = []" by (simp add: pending_def)
  moreover have "uncovered (?st'\<lparr>promiseQueue := []\<rparr>) = uncovered ?st'"
    by (simp add: uncovered_def)
  moreover have "\<forall>j. resident (?st'\<lparr>promiseQueue := []\<rparr>) j = resident ?st' j"
    by (simp add: resident_def)
  ultimately have "point_inv m (?st'\<lparr>promiseQueue := []\<rparr>)"
    using f none by (simp add: point_inv_def)
  then show "batch_inv m (await_all picks st)"
    by (simp add: batch_inv_def await_all_def)
qed

lemma await_all_queue_length:
  "length (priorityQueue (await_all picks st))
     \<le> length (priorityQueue st) + length (promiseQueue st)"
  using fold_settle_queue_length[of "completion_order picks (promiseQueue st)" st]
  by (simp add: await_all_def)

lemma await_all_queue_grows:
  "length (priorityQueue st) \<le> length (priorityQueue (await_all picks st))"
  using fold_settle_queue_grows[of st "completion_order picks (promiseQueue st)"]
  by (simp add: await_all_def)

subsection \<open>Admitting a fetch\<close>

lemma advance_fields [simp]:
  "loading (advance s) = loading s"
  "bufferCount (advance s) = bufferCount s"
  "drained (advance s) = (drained s \<or> upcoming s = [])"
  "upcoming (advance s) = tl (upcoming s)"
  by (simp_all add: advance_def split: list.splits)

lemma queueLogFromSource_fields [simp]:
  "logSources (queueLogFromSource i st) = logSources st"
  "promiseQueue (queueLogFromSource i st) = promiseQueue st @ [i]"
  "priorityQueue (queueLogFromSource i st) = priorityQueue st"
  "printer (queueLogFromSource i st) = printer st"
  "loading (heap (queueLogFromSource i st) j) = (j = i \<or> loading (heap st j))"
  "bufferCount (heap (queueLogFromSource i st) j) = bufferCount (heap st j)"
  "drained (heap (queueLogFromSource i st) j) =
     (if j = i then drained (heap st i) \<or> upcoming (heap st i) = [] else drained (heap st j))"
  "upcoming (heap (queueLogFromSource i st) j) =
     (if j = i then tl (upcoming (heap st i)) else upcoming (heap st j))"
  by (simp_all add: queueLogFromSource_def)

lemma queueLogFromSource_batch_inv:
  assumes h: "head_inv m st"
    and f: "findNextLogSourceToQueue (heap st) (logSources st) None = Some i"
    and room: "length (priorityQueue st) + length (promiseQueue st) < m"
  shows "batch_inv m (queueLogFromSource i st)"
proof -
  let ?st' = "queueLogFromSource i st"
  from h have p: "point_inv m st" and l: "\<forall>j\<in>set (promiseQueue st). loading (heap st j)"
    and nd: "\<forall>j\<in>set (logSources st). \<not> drained (heap st j)"
    by (simp_all add: head_inv_def batch_inv_def)
  from findNext_Some[OF f] have i: "i \<in> set (logSources st)" "\<not> loading (heap st i)"
    by simp_all
  with l have fresh: "i \<notin> set (promiseQueue st)" by blast
  from p have dl: "distinct (logSources st)"
    and le: "length (priorityQueue st) + length (pending st) + length (uncovered st) \<le> m"
    by (simp_all add: point_inv_def)
  have "pending ?st' = promiseQueue st @ [i]"
    using l by (simp add: pending_def)
  then have pend: "length (pending ?st') = Suc (length (promiseQueue st))" by simp
  have "length (priorityQueue ?st') + length (pending ?st') + length (uncovered ?st') \<le> m"
  proof (cases "idle_empty (heap st i)")
    case True
    have "Suc (length (uncovered ?st')) = length (uncovered st)"
      unfolding uncovered_def queueLogFromSource_fields
      by (rule length_filter_drop_one[where i = i and P = "\<lambda>j. idle_empty (heap st j)"])
        (use dl i True in \<open>simp_all add: idle_empty_def\<close>)
    moreover have "length (pending st) = length (promiseQueue st)"
      using l by (simp add: pending_def)
    ultimately show ?thesis using le pend by simp
  next
    case False
    have "uncovered ?st' = []"
    proof (rule ccontr)
      assume "uncovered ?st' \<noteq> []"
      then obtain j where j: "j \<in> set (logSources st)" "idle_empty (heap ?st' j)"
        by (auto simp: uncovered_def filter_empty_conv)
      then have "\<not> loading (heap st j) \<and> bufferCount (heap st j) = 0"
        by (simp add: idle_empty_def)
      with j(1) have "\<exists>j\<in>set (logSources st). \<not> loading (heap st j) \<and> bufferCount (heap st j) = 0"
        by blast
      from findNext_zero[OF this, of None] f have z: "bufferCount (heap st i) = 0" by auto
      with i nd False show False by (simp add: idle_empty_def)
    qed
    with room pend show ?thesis by simp
  qed
  moreover have "\<forall>j. resident ?st' j = resident st j" by (simp add: resident_def)
  ultimately have "point_inv m ?st'"
    using p fresh by (auto simp: point_inv_def)
  then show ?thesis using l by (auto simp: batch_inv_def)
qed

subsection \<open>Printing the next log\<close>

lemma printNext_Inr:
  assumes "printNextLogFromQueue st = Inr st'"
  obtains c where "c \<in> set (priorityQueue st)" "is_min (priorityQueue st) c"
    and "st' = st\<lparr>priorityQueue := remove1 c (priorityQueue st),
                   printer := printer st @ [Print (log c)],
                   heap := (heap st)(source c :=
                     (heap st (source c))\<lparr>bufferCount := bufferCount (heap st (source c)) - 1\<rparr>)\<rparr>"
proof -
  from assms obtain c q where pop: "pq_pop (priorityQueue st) = Some (c, q)"
    and st': "st' = st\<lparr>priorityQueue := q, printer := printer st @ [Print (log c)],
                   heap := (heap st)(source c :=
                     (heap st (source c))\<lparr>bufferCount := bufferCount (heap st (source c)) - 1\<rparr>)\<rparr>"
    by (auto simp: printNextLogFromQueue_def split: option.splits)
  from pq_pop_SomeD[OF pop] st' that show thesis by simp
qed

lemma printNext_fields:
  assumes "printNextLogFromQueue st = Inr st'"
  shows "logSources st' = logSources st"
    and "promiseQueue st' = promiseQueue st"
    and "Suc (length (priorityQueue st')) = length (priorityQueue st)"
    and "\<And>j. drained (heap st' j) = drained (heap st j)"
    and "\<And>j. upcoming (heap st' j) = upcoming (heap st j)"
    and "\<And>j. loading (heap st' j) = loading (heap st j)"
proof -
  from assms obtain c where c: "c \<in> set (priorityQueue st)"
    and st': "st' = st\<lparr>priorityQueue := remove1 c (priorityQueue st),
                   printer := printer st @ [Print (log c)],
                   heap := (heap st)(source c :=
                     (heap st (source c))\<lparr>bufferCount := bufferCount (heap st (source c)) - 1\<rparr>)\<rparr>"
    by (rule printNext_Inr)
  show "logSources st' = logSources st" "promiseQueue st' = promiseQueue st"
    "\<And>j. drained (heap st' j) = drained (heap st j)"
    "\<And>j. upcoming (heap st' j) = upcoming (heap st j)"
    "\<And>j. loading (heap st' j) = loading (heap st j)"
    by (simp_all add: st')
  from c have "0 < length (priorityQueue st)" by (cases "priorityQueue st") simp_all
  with c show "Suc (length (priorityQueue st')) = length (priorityQueue st)"
    by (simp add: st' length_remove1)
qed

lemma printNext_batch_inv:
  assumes inv: "batch_inv m st" and pr: "printNextLogFromQueue st = Inr st'"
  shows "batch_inv m st'"
proof -
  from pr obtain c where c: "c \<in> set (priorityQueue st)"
    and st': "st' = st\<lparr>priorityQueue := remove1 c (priorityQueue st),
                   printer := printer st @ [Print (log c)],
                   heap := (heap st)(source c :=
                     (heap st (source c))\<lparr>bufferCount := bufferCount (heap st (source c)) - 1\<rparr>)\<rparr>"
    by (rule printNext_Inr)
  from inv have p: "point_inv m st" and l: "\<forall>j\<in>set (promiseQueue st). loading (heap st j)"
    by (simp_all add: batch_inv_def)
  from p have b: "\<forall>j. bufferCount (heap st j) = int (resident st j)"
    and dl: "distinct (logSources st)"
    and le: "length (priorityQueue st) + length (pending st) + length (uncovered st) \<le> m"
    by (simp_all add: point_inv_def)
  have res: "resident st' j = resident st j - (if j = source c then 1 else 0)" for j
    using c by (auto simp: resident_def st' filter_remove1 length_remove1)
  have "0 < resident st (source c)"
    using c by (auto simp: resident_def filter_empty_conv)
  with b res have b': "\<forall>j. bufferCount (heap st' j) = int (resident st' j)"
    by (auto simp: st')
  have "loading (heap st' j) = loading (heap st j)" for j
    by (rule printNext_fields[OF pr])
  then have "pending st' = pending st"
    by (simp add: pending_def printNext_fields[OF pr])
  moreover have "length (uncovered st') \<le> Suc (length (uncovered st))"
    unfolding uncovered_def
    using length_filter_add_one[OF dl, where i = "source c"
        and Q = "\<lambda>j. idle_empty (heap st' j)" and P = "\<lambda>j. idle_empty (heap st j)"]
    by (simp add: st')
  moreover have "Suc (length (priorityQueue st')) = length (priorityQueue st)"
    by (rule printNext_fields[OF pr])
  ultimately have "length (priorityQueue st') + length (pending st') + length (uncovered st') \<le> m"
    using le by simp
  with b' p have "point_inv m st'"
    by (simp add: point_inv_def printNext_fields[OF pr]) (simp add: st')
  with l show ?thesis by (simp add: batch_inv_def printNext_fields[OF pr])
qed

lemma printNext_succeeds:
  assumes inv: "point_inv m st" and gate: "allSourcesHaveBeenRead st"
    and more: "logSources st \<noteq> [] \<or> priorityQueue st \<noteq> []"
  shows "\<exists>st'. printNextLogFromQueue st = Inr st'"
proof -
  have "priorityQueue st \<noteq> []"
  proof (cases "logSources st")
    case Nil
    with more show ?thesis by simp
  next
    case (Cons i "is")
    with gate have "0 < bufferCount (heap st i)"
      by (simp add: allSourcesHaveBeenRead_def)
    with inv have "0 < resident st i" by (simp add: point_inv_def)
    then show ?thesis by (auto simp: resident_def)
  qed
  then have "pq_pop (priorityQueue st) \<noteq> None" by (simp add: pq_pop_None_iff)
  then show ?thesis by (auto simp: printNextLogFromQueue_def split: option.splits)
qed

subsection \<open>Retiring the drained sources\<close>

lemma retire_fields [simp]:
  "logSources (retire st) = filter (\<lambda>i. \<not> drained (heap st i)) (logSources st)"
  "promiseQueue (retire st) = promiseQueue st"
  "priorityQueue (retire st) = priorityQueue st"
  "printer (retire st) = printer st"
  "heap (retire st) = heap st"
  by (simp_all add: retire_def)

lemma retire_point_inv:
  assumes "point_inv m st"
  shows "point_inv m (retire st)"
proof -
  have "uncovered (retire st) = uncovered st"
    by (auto simp: uncovered_def idle_empty_def intro: filter_cong)
  moreover have "pending (retire st) = pending st" by (simp add: pending_def)
  moreover have "\<forall>j. resident (retire st) j = resident st j" by (simp add: resident_def)
  ultimately show ?thesis using assms by (simp add: point_inv_def)
qed

lemma retire_head_inv:
  assumes "batch_inv m st"
  shows "head_inv m (retire st)"
  using assms retire_point_inv[of m st] by (simp add: head_inv_def batch_inv_def)

section \<open>Termination of the main loop\<close>

lemma weight_queueLogFromSource:
  assumes "distinct (logSources st)" "i \<in> set (logSources st)" "\<not> drained (heap st i)"
  shows "Suc (weight (queueLogFromSource i st)) = weight st"
proof -
  have "Suc (\<Sum>j\<leftarrow>logSources st. remaining (heap (queueLogFromSource i st) j))
          = (\<Sum>j\<leftarrow>logSources st. remaining (heap st j))"
    by (rule sum_list_drop_one[OF assms(1,2)])
      (use assms(3) in \<open>auto simp: remaining_def\<close>)
  then show ?thesis by (simp add: weight_def)
qed

lemma weight_await_all:
  "weight (await_all picks st) + length (promiseQueue st) \<le> weight st"
proof -
  have "(\<Sum>j\<leftarrow>logSources st. remaining (heap (await_all picks st) j))
          = (\<Sum>j\<leftarrow>logSources st. remaining (heap st j))"
    by (simp add: remaining_def cong: if_cong)
  with await_all_queue_length[of picks st] show ?thesis by (simp add: weight_def)
qed

lemma weight_printNext:
  assumes "printNextLogFromQueue st = Inr st'"
  shows "Suc (weight st') = weight st"
proof -
  have "(\<Sum>j\<leftarrow>logSources st. remaining (heap st' j))
          = (\<Sum>j\<leftarrow>logSources st. remaining (heap st j))"
    by (simp add: remaining_def printNext_fields[OF assms] cong: if_cong)
  with printNext_fields(1-3)[OF assms] show ?thesis by (simp add: weight_def)
qed

lemma weight_retire: "weight (retire st) = weight st"
proof -
  have "(\<Sum>j\<leftarrow>filter (\<lambda>i. \<not> drained (heap st i)) (logSources st). remaining (heap st j))
          = (\<Sum>j\<leftarrow>logSources st. remaining (heap st j))"
    by (rule sum_list_filter_zero) (simp add: remaining_def)
  then show ?thesis by (simp add: weight_def)
qed

subsection \<open>The parts of a pass\<close>

lemma admission_cases:
  assumes h: "head_inv m st" and full: "full = (m \<le> length (priorityQueue st) + length (promiseQueue st))"
  obtains (fetch) i where "\<not> full" "findNextLogSourceToQueue (heap st) (logSources st) None = Some i"
      "admission full st = queueLogFromSource i st" "batch_inv m (admission full st)"
      "Suc (weight (admission full st)) = weight st"
  | (idle) "full \<or> findNextLogSourceToQueue (heap st) (logSources st) None = None"
      "admission full st = st"
proof (cases "\<not> full \<and> findNextLogSourceToQueue (heap st) (logSources st) None \<noteq> None")
  case True
  then obtain i where i: "findNextLogSourceToQueue (heap st) (logSources st) None = Some i"
    by blast
  from True have nf: "\<not> full" by simp
  with full have room: "length (priorityQueue st) + length (promiseQueue st) < m" by simp
  from i nf have eq: "admission full st = queueLogFromSource i st"
    by (simp add: admission_def addNextLogToQueue_def)
  from findNext_Some[OF i] have mem: "i \<in> set (logSources st)" by simp
  from h have "distinct (logSources st)" "\<not> drained (heap st i)"
    using mem by (simp_all add: head_inv_def batch_inv_def point_inv_def)
  from weight_queueLogFromSource[OF this(1) mem this(2)]
    queueLogFromSource_batch_inv[OF h i room] eq nf i
  show ?thesis by (intro fetch[of i]) simp_all
next
  case False
  then have "admission full st = st"
    by (auto simp: admission_def addNextLogToQueue_def)
  with False show ?thesis by (intro idle) auto
qed

lemma admission_batch_inv:
  assumes "head_inv m st" "full = (m \<le> length (priorityQueue st) + length (promiseQueue st))"
  shows "batch_inv m (admission full st)"
  using assms(1) by (cases rule: admission_cases[OF assms]) (simp_all add: head_inv_def)

lemma admission_fields:
  "logSources (admission full st) = logSources st"
  "priorityQueue (admission full st) = priorityQueue st"
  "printer (admission full st) = printer st"
  by (simp_all add: admission_def addNextLogToQueue_def split: option.splits)

lemma drain_batch_inv:
  assumes "batch_inv m st"
  shows "batch_inv m (drain full fp picks st)"
  using assms await_all_batch_inv(1)[OF assms] by (simp add: drain_def)

lemma drain_fields:
  "logSources (drain full fp picks st) = logSources st"
  "printer (drain full fp picks st) = printer st"
  "length (priorityQueue st) \<le> length (priorityQueue (drain full fp picks st))"
  using await_all_queue_grows[of st picks] by (simp_all add: drain_def)

lemma weight_drain:
  "weight (drain full fp picks st) \<le> weight st"
  "drains full fp st \<Longrightarrow> weight (drain full fp picks st) < weight st"
proof -
  show "weight (drain full fp picks st) \<le> weight st"
    using weight_await_all[of picks st] by (simp add: drain_def)
  assume "drains full fp st"
  then have eq: "drain full fp picks st = await_all picks st"
    and pos: "0 < length (promiseQueue st)"
    by (simp_all add: drain_def drains_def)
  from weight_await_all[of picks st] pos have "weight (await_all picks st) < weight st"
    by linarith
  then show "weight (drain full fp picks st) < weight st"
    by (simp only: eq)
qed

lemma emission_cases:
  assumes inv: "batch_inv m st" and more: "logSources st \<noteq> [] \<or> priorityQueue st \<noteq> []"
  obtains (print) st' where "allSourcesHaveBeenRead st" "emission st = Inr st'"
      "printNextLogFromQueue st = Inr st'" "batch_inv m st'" "Suc (weight st') = weight st"
  | (wait) "\<not> allSourcesHaveBeenRead st" "emission st = Inr st"
proof (cases "allSourcesHaveBeenRead st")
  case True
  from inv have "point_inv m st" by (simp add: batch_inv_def)
  from printNext_succeeds[OF this True more] obtain st' where
    st': "printNextLogFromQueue st = Inr st'" by blast
  from True st' printNext_batch_inv[OF inv st'] weight_printNext[OF st']
  show ?thesis by (intro print[of st']) (simp_all add: emission_def)
next
  case False
  then show ?thesis by (intro wait) (simp_all add: emission_def)
qed

text \<open>
  A pass in which nothing is fetched and nothing is printed awaits the batch: a pass
  cannot leave the state as it is.
\<close>

lemma blocked_pass_drains:
  assumes h: "head_inv m st"
    and full: "full = (m \<le> length (priorityQueue st) + length (promiseQueue st))"
    and idle: "full \<or> findNextLogSourceToQueue (heap st) (logSources st) None = None"
    and gate: "\<not> allSourcesHaveBeenRead st"
  shows "drains full fp st"
proof -
  from h have p: "point_inv m st"
    and nd: "\<forall>j\<in>set (logSources st). \<not> drained (heap st j)"
    by (simp_all add: head_inv_def batch_inv_def)
  from p have b: "\<forall>j. bufferCount (heap st j) = int (resident st j)"
    and lp: "\<forall>j. loading (heap st j) \<longrightarrow> j \<in> set (promiseQueue st)"
    and le: "length (priorityQueue st) + length (pending st) + length (uncovered st) \<le> m"
    by (simp_all add: point_inv_def)
  from gate obtain s where s: "s \<in> set (logSources st)" "\<not> 0 < bufferCount (heap st s)"
    by (auto simp: allSourcesHaveBeenRead_def list_all_iff)
  with b have z: "bufferCount (heap st s) = 0" by simp
  show ?thesis
  proof (cases "loading (heap st s)")
    case True
    with lp have "s \<in> set (promiseQueue st)" by simp
    then have ne: "0 < length (promiseQueue st)" by (cases "promiseQueue st") simp_all
    from idle show ?thesis
    proof
      assume full
      with ne show ?thesis by (simp add: drains_def)
    next
      assume "findNextLogSourceToQueue (heap st) (logSources st) None = None"
      from findNext_None[OF this] have "allSourcesAreLoading st"
        by (simp add: allSourcesAreLoading_def list_all_iff)
      with ne show ?thesis by (simp add: drains_def)
    qed
  next
    case False
    with s(1) z nd have "idle_empty (heap st s)" by (simp add: idle_empty_def)
    with s(1) have "s \<in> set (uncovered st)" by (simp add: uncovered_def)
    then have "0 < length (uncovered st)" by (cases "uncovered st") simp_all
    with le have lt: "length (priorityQueue st) + length (pending st) < m" by linarith
    from idle show ?thesis
    proof
      assume f: full
      have "promiseQueue st \<noteq> []"
      proof
        assume "promiseQueue st = []"
        with f full lt show False by simp
      qed
      with f show ?thesis by (simp add: drains_def)
    next
      assume "findNextLogSourceToQueue (heap st) (logSources st) None = None"
      from findNext_None[OF this] s(1) False show ?thesis by simp
    qed
  qed
qed

lemma priorityQueueIsFull_Inr:
  assumes "point_inv m st"
  shows "priorityQueueIsFull (priorityQueue st) m (promiseQueue st)
           = Inr (m \<le> length (priorityQueue st) + length (promiseQueue st))"
  using assms by (simp add: point_inv_def priorityQueueIsFull_def)

lemma tick_head_inv:
  assumes h: "head_inv m st" and c: "continueLoop st"
  obtains st' where "tick m picks st = Inr st'" "head_inv m st'" "weight st' < weight st"
proof -
  define full where "full = (m \<le> length (priorityQueue st) + length (promiseQueue st))"
  define fp where "fp = promiseQueueIsFull (promiseQueue st) 50"
  define st1 where "st1 = admission full st"
  define st2 where "st2 = drain full fp picks st1"
  from h have p: "point_inv m st" by (simp add: head_inv_def batch_inv_def)
  have t: "tick m picks st = (case emission st2 of Inl e \<Rightarrow> Inl e | Inr st3 \<Rightarrow> Inr (retire st3))"
    by (simp add: tick_def priorityQueueIsFull_Inr[OF p] Let_def full_def fp_def st1_def st2_def)
  have b1: "batch_inv m st1"
    unfolding st1_def by (rule admission_batch_inv[OF h full_def])
  then have b2: "batch_inv m st2"
    unfolding st2_def by (rule drain_batch_inv)
  have w1: "weight st1 \<le> weight st"
    by (cases rule: admission_cases[OF h full_def]) (simp_all add: st1_def)
  have w2: "weight st2 \<le> weight st1"
    unfolding st2_def by (rule weight_drain)
  from c have more: "logSources st2 \<noteq> [] \<or> priorityQueue st2 \<noteq> []"
    using drain_fields(1,3)[where full = full and fp = fp and picks = picks and st = st1]
      admission_fields(1,2)[where full = full and st = st]
    by (auto simp: continueLoop_def st2_def st1_def)
  show thesis
  proof (rule emission_cases[OF b2 more])
    fix st3
    assume print: "allSourcesHaveBeenRead st2" "emission st2 = Inr st3"
      "printNextLogFromQueue st2 = Inr st3" "batch_inv m st3" "Suc (weight st3) = weight st2"
    from print w1 w2 retire_head_inv[OF print(4)] show ?thesis
      by (intro that[of "retire st3"]) (simp_all add: t weight_retire)
  next
    assume wait: "\<not> allSourcesHaveBeenRead st2" "emission st2 = Inr st2"
    have "weight st2 < weight st"
    proof (rule admission_cases[OF h full_def])
      fix i
      assume "Suc (weight (admission full st)) = weight st"
      with w2 show ?thesis by (simp add: st1_def)
    next
      assume idle: "full \<or> findNextLogSourceToQueue (heap st) (logSources st) None = None"
        "admission full st = st"
      then have eq: "st1 = st" by (simp add: st1_def)
      have "drains full fp st"
      proof (rule ccontr)
        assume nd: "\<not> drains full fp st"
        then have "st2 = st" by (simp add: st2_def eq drain_def)
        with wait(1) blocked_pass_drains[OF h full_def idle(1), of fp] nd
        show False by simp
      qed
      from weight_drain(2)[OF this] show ?thesis by (simp add: st2_def eq)
    qed
    with wait retire_head_inv[OF b2] show ?thesis
      by (intro that[of "retire st2"]) (simp_all add: t weight_retire)
  qed
qed

lemma pass_points_inv:
  assumes h: "head_inv m st" and c: "continueLoop st" and mem: "p \<in> set (pass_points m picks st)"
  shows "point_inv m p"
proof -
  define full where "full = (m \<le> length (priorityQueue st) + length (promiseQueue st))"
  define fp where "fp = promiseQueueIsFull (promiseQueue st) 50"
  define st1 where "st1 = admission full st"
  define st2 where "st2 = drain full fp picks st1"
  from h have p: "point_inv m st" by (simp add: head_inv_def batch_inv_def)
  have pts: "pass_points m picks st =
      st1 # (if drains full fp st1
             then settle_points (completion_order picks (promiseQueue st1)) st1 else []) @
      st2 # (case emission st2 of Inl e \<Rightarrow> [] | Inr st3 \<Rightarrow> [st3, retire st3])"
    by (simp add: pass_points_def priorityQueueIsFull_Inr[OF p] Let_def full_def fp_def
        st1_def st2_def)
  have b1: "batch_inv m st1"
    unfolding st1_def by (rule admission_batch_inv[OF h full_def])
  then have b2: "batch_inv m st2"
    unfolding st2_def by (rule drain_batch_inv)
  from c have more: "logSources st2 \<noteq> [] \<or> priorityQueue st2 \<noteq> []"
    using drain_fields(1,3)[where full = full and fp = fp and picks = picks and st = st1]
      admission_fields(1,2)[where full = full and st = st]
    by (auto simp: continueLoop_def st2_def st1_def)
  have last: "\<forall>q\<in>set (case emission st2 of Inl e \<Rightarrow> [] | Inr st3 \<Rightarrow> [st3, retire st3]).
                point_inv m q"
  proof (rule emission_cases[OF b2 more])
    fix st3
    assume "emission st2 = Inr st3" "batch_inv m st3"
    then show ?thesis using retire_point_inv[of m st3] by (simp add: batch_inv_def)
  next
    assume "emission st2 = Inr st2"
    then show ?thesis using b2 retire_point_inv[of m st2] by (simp add: batch_inv_def)
  qed
  from mem b1 b2 await_all_batch_inv(2)[OF b1, of picks] last show ?thesis
    by (auto simp: pts batch_inv_def split: if_splits)
qed

subsection \<open>The first state\<close>

lemma init_step_fields:
  "drained (init_step p h j) = drained (h j)"
  "upcoming (init_step p h j) = upcoming (h j)"
  "bufferCount (init_step p h j) = (if j = snd p then 0 else bufferCount (h j))"
  "loading (init_step p h j) = (j \<noteq> snd p \<and> loading (h j))"
  by (cases p; simp add: init_step_def)+

lemma initialize_fold:
  "drained (fold init_step ps h j) = drained (h j)"
  "upcoming (fold init_step ps h j) = upcoming (h j)"
  "bufferCount (fold init_step ps h j) = (if j \<in> snd ` set ps then 0 else bufferCount (h j))"
  "loading (fold init_step ps h j) = (j \<notin> snd ` set ps \<and> loading (h j))"
proof -
  show "drained (fold init_step ps h j) = drained (h j)"
    by (induction ps arbitrary: h) (simp_all add: init_step_fields)
  show "upcoming (fold init_step ps h j) = upcoming (h j)"
    by (induction ps arbitrary: h) (simp_all add: init_step_fields)
  show "bufferCount (fold init_step ps h j) = (if j \<in> snd ` set ps then 0 else bufferCount (h j))"
    by (induction ps arbitrary: h) (simp_all add: init_step_fields)
  show "loading (fold init_step ps h j) = (j \<notin> snd ` set ps \<and> loading (h j))"
    by (induction ps arbitrary: h) (auto simp add: init_step_fields)
qed

lemma initializeSources_fields:
  "logSources (initializeSources st) = logSources st"
  "priorityQueue (initializeSources st) = priorityQueue st"
  "promiseQueue (initializeSources st) = promiseQueue st"
  "printer (initializeSources st) = printer st"
  "drained (heap (initializeSources st) j) = drained (heap st j)"
  "upcoming (heap (initializeSources st) j) = upcoming (heap st j)"
  "bufferCount (heap (initializeSources st) j)
     = (if j \<in> set (logSources st) then 0 else bufferCount (heap st j))"
  "loading (heap (initializeSources st) j) = (j \<notin> set (logSources st) \<and> loading (heap st j))"
proof -
  have s: "snd ` set (enumerate 0 (logSources st)) = set (logSources st)"
    by (metis map_snd_enumerate set_map)
  show "logSources (initializeSources st) = logSources st"
    "priorityQueue (initializeSources st) = priorityQueue st"
    "promiseQueue (initializeSources st) = promiseQueue st"
    "printer (initializeSources st) = printer st"
    by (simp_all add: initializeSources_def)
  define h' where "h' = fold init_step (enumerate 0 (logSources st)) (heap st)"
  have h: "heap (initializeSources st) = h'"
    by (simp add: initializeSources_def h'_def init_step_def)
  show "drained (heap (initializeSources st) j) = drained (heap st j)"
    unfolding h unfolding h'_def by (rule initialize_fold)
  show "upcoming (heap (initializeSources st) j) = upcoming (heap st j)"
    unfolding h unfolding h'_def by (rule initialize_fold)
  show "bufferCount (heap (initializeSources st) j)
     = (if j \<in> set (logSources st) then 0 else bufferCount (heap st j))"
    unfolding h unfolding h'_def s[symmetric] by (rule initialize_fold)
  show "loading (heap (initializeSources st) j) = (j \<notin> set (logSources st) \<and> loading (heap st j))"
    unfolding h unfolding h'_def s[symmetric] by (rule initialize_fold)
qed

lemma heap_of_fields:
  "bufferCount (heap_of srcs j) = (if j < length srcs then bufferCount (srcs ! j) else 0)"
  "loading (heap_of srcs j) = (j < length srcs \<and> loading (srcs ! j))"
  "upcoming (heap_of srcs j) = (if j < length srcs then upcoming (srcs ! j) else [])"
  "drained (heap_of srcs j) = (j < length srcs \<longrightarrow> drained (srcs ! j))"
  by (auto simp: heap_of_def no_source_def)

lemma heap_of_drained:
  assumes "\<forall>s\<in>set srcs. \<not> drained s"
  shows "drained (heap_of srcs j) = (length srcs \<le> j)"
  using assms by (auto simp: heap_of_fields)

lemma initial_fields:
  "logSources (initial srcs) = [0..<length srcs]"
  "priorityQueue (initial srcs) = []"
  "promiseQueue (initial srcs) = []"
  "printer (initial srcs) = []"
  "bufferCount (heap (initial srcs) j) = 0"
  "loading (heap (initial srcs) j) = False"
  "upcoming (heap (initial srcs) j) = (if j < length srcs then upcoming (srcs ! j) else [])"
  by (simp_all add: initial_def initializeSources_fields heap_of_fields)

lemma initial_drained:
  assumes "\<forall>s\<in>set srcs. \<not> drained s"
  shows "drained (heap (initial srcs) j) = (length srcs \<le> j)"
  using heap_of_drained[OF assms] by (simp add: initial_def initializeSources_fields)

lemma initial_head_inv:
  assumes "\<forall>s\<in>set srcs. \<not> drained s"
  shows "head_inv (length srcs * 10) (initial srcs)"
proof -
  let ?st = "initial srcs"
  have "length (uncovered ?st) \<le> length (logSources ?st)"
    by (simp add: uncovered_def)
  then have "length (uncovered ?st) \<le> length srcs * 10"
    by (simp add: initial_fields)
  moreover have "pending ?st = []" by (simp add: pending_def initial_fields)
  moreover have "\<forall>i. resident ?st i = 0" by (simp add: resident_def initial_fields)
  ultimately show ?thesis
    by (simp add: head_inv_def batch_inv_def point_inv_def initial_fields
        initial_drained[OF assms])
qed

subsection \<open>The passes of a run\<close>

lemma passes_head_inv:
  assumes "head_inv m st"
  shows "\<exists>st'. passes m sched n st = Inr st' \<and> head_inv m st'"
proof (induction n)
  case 0
  from assms show ?case by simp
next
  case (Suc n)
  then obtain st' where st': "passes m sched n st = Inr st'" "head_inv m st'" by blast
  show ?case
  proof (cases "continueLoop st'")
    case True
    from tick_head_inv[OF st'(2) True, of "sched n"] obtain st2 where
      "tick m (sched n) st' = Inr st2" "head_inv m st2" by blast
    with st'(1) True show ?thesis by simp
  next
    case False
    with st' show ?thesis by simp
  qed
qed

lemma main_loop_terminates:
  assumes "head_inv m st"
  shows "\<exists>st'. main_loop m sched n st = Some (Inr (st'\<lparr>printer := printer st' @ [Done]\<rparr>))
           \<and> head_inv m st' \<and> \<not> continueLoop st'"
  using assms
proof (induction "weight st" arbitrary: st n rule: less_induct)
  case less
  show ?case
  proof (cases "continueLoop st")
    case True
    from tick_head_inv[OF less.prems True, of "sched n"] obtain st1 where
      st1: "tick m (sched n) st = Inr st1" "head_inv m st1" "weight st1 < weight st"
      by blast
    from less.hyps[OF st1(3) st1(2), of "Suc n"] obtain st' where
      st': "main_loop m sched (Suc n) st1 = Some (Inr (st'\<lparr>printer := printer st' @ [Done]\<rparr>))"
        "head_inv m st'" "\<not> continueLoop st'"
      by blast
    have "main_loop m sched n st = main_loop m sched (Suc n) st1"
      by (subst main_loop.simps) (simp add: True st1(1))
    with st' show ?thesis by auto
  next
    case False
    have "main_loop m sched n st = Some (Inr (st\<lparr>printer := printer st @ [Done]\<rparr>))"
      by (subst main_loop.simps) (simp add: False)
    with False less.prems show ?thesis by blast
  qed
qed

section \<open>The states of a run\<close>

lemma run_points_inv:
  assumes "\<forall>s\<in>set srcs. \<not> drained s" and "p \<in> set (run_points sched srcs n)"
  shows "point_inv (length srcs * 10) p"
proof -
  let ?m = "length srcs * 10"
  from passes_head_inv[OF initial_head_inv[OF assms(1)], of sched n] obtain st where
    st: "passes ?m sched n (initial srcs) = Inr st" "head_inv ?m st"
    by blast
  from assms(2) st(1)
  have "p = st \<or> (continueLoop st \<and> p \<in> set (pass_points ?m (sched n) st))"
    by (auto simp: run_points_def split: if_splits)
  then show ?thesis
  proof
    assume "p = st"
    with st(2) show ?thesis by (simp add: head_inv_def batch_inv_def)
  next
    assume "continueLoop st \<and> p \<in> set (pass_points ?m (sched n) st)"
    with pass_points_inv[OF st(2)] show ?thesis by blast
  qed
qed

lemma resident_le_queue: "resident p i \<le> length (priorityQueue p)"
  by (simp add: resident_def)

lemma only_prints:
  "Done \<notin> set es \<Longrightarrow> \<exists>ls. es = map Print ls"
proof (induction es)
  case Nil
  show ?case by simp
next
  case (Cons e es)
  then obtain ls where ls: "es = map Print ls" by auto
  from Cons.prems obtain l where "e = Print l" by (cases e) auto
  with ls have "e # es = map Print (l # ls)" by simp
  then show ?case by (rule exI)
qed

lemma main_loop_exceeded:
  assumes "maxSize < length (priorityQueue st)"
  shows "main_loop maxSize sched k st = Some (Inl PriorityQueueExceededMaxSize)"
proof -
  from assms have "continueLoop st" by (auto simp: continueLoop_def)
  moreover from assms have "tick maxSize (sched k) st = Inl PriorityQueueExceededMaxSize"
    by (simp add: tick_def priorityQueueIsFull_def)
  ultimately show ?thesis by (subst main_loop.simps) simp
qed

lemma async_result:
  assumes "\<forall>s\<in>set srcs. \<not> drained s"
  shows "\<exists>st. asyncSortedMerge sched srcs
           = Some (Inr (st\<lparr>printer := printer st @ [Done]\<rparr>))
         \<and> head_inv (length srcs * 10) st \<and> \<not> continueLoop st"
  using main_loop_terminates[OF initial_head_inv[OF assms], of sched 0]
  by (simp add: asyncSortedMerge_def)

lemma run_points_hd:
  assumes "\<forall>s\<in>set srcs. \<not> drained s"
  shows "run_points sched srcs n \<noteq> []"
    and "passes (length srcs * 10) sched n (initial srcs)
           = Inr (hd (run_points sched srcs n))"
  using passes_head_inv[OF initial_head_inv[OF assms], of sched n]
  by (auto simp: run_points_def)

subsection \<open>The emission gate\<close>

lemma tick_gate_point:
  assumes "point_inv m st"
  shows "tick m picks st =
           (case emission (gate_point m picks st) of
              Inl e \<Rightarrow> Inl e
            | Inr st3 \<Rightarrow> Inr (retire st3))"
  by (simp add: tick_def gate_point_def priorityQueueIsFull_Inr[OF assms] Let_def)

lemma gate_point_fields:
  assumes "point_inv m st"
  shows "printer (gate_point m picks st) = printer st"
    and "logSources (gate_point m picks st) = logSources st"
    and "length (priorityQueue st) \<le> length (priorityQueue (gate_point m picks st))"
  using drain_fields[where st = "admission (m \<le> length (priorityQueue st) + length (promiseQueue st)) st"
      and picks = picks and fp = "promiseQueueIsFull (promiseQueue st) 50"
      and full = "m \<le> length (priorityQueue st) + length (promiseQueue st)"]
  by (simp_all add: gate_point_def priorityQueueIsFull_Inr[OF assms] admission_fields)

lemma gate_point_batch_inv:
  assumes "head_inv m st"
  shows "batch_inv m (gate_point m picks st)"
proof -
  from assms have p: "point_inv m st" by (simp add: head_inv_def batch_inv_def)
  show ?thesis
    unfolding gate_point_def priorityQueueIsFull_Inr[OF p] sum.case
    by (intro drain_batch_inv admission_batch_inv[OF assms]) simp
qed

lemma pass_emits:
  assumes h: "head_inv m st" and c: "continueLoop st"
  shows "(allSourcesHaveBeenRead (gate_point m picks st) \<longrightarrow>
            (\<exists>c st'. tick m picks st = Inr st'
               \<and> c \<in> set (priorityQueue (gate_point m picks st))
               \<and> is_min (priorityQueue (gate_point m picks st)) c
               \<and> printer st' = printer st @ [Print (log c)]
               \<and> priorityQueue st' = remove1 c (priorityQueue (gate_point m picks st))))
       \<and> (\<not> allSourcesHaveBeenRead (gate_point m picks st) \<longrightarrow>
            (\<exists>st'. tick m picks st = Inr st'
               \<and> printer st' = printer st
               \<and> priorityQueue st' = priorityQueue (gate_point m picks st)))"
proof -
  let ?g = "gate_point m picks st"
  from h have p: "point_inv m st" by (simp add: head_inv_def batch_inv_def)
  have b: "batch_inv m ?g" by (rule gate_point_batch_inv[OF h])
  from c gate_point_fields(2,3)[OF p, of picks]
  have more: "logSources ?g \<noteq> [] \<or> priorityQueue ?g \<noteq> []"
    by (auto simp: continueLoop_def)
  show ?thesis
  proof (intro conjI impI)
    assume gate: "allSourcesHaveBeenRead ?g"
    from b have "point_inv m ?g" by (simp add: batch_inv_def)
    from printNext_succeeds[OF this gate more] obtain st3 where
      st3: "printNextLogFromQueue ?g = Inr st3" by blast
    from st3 obtain c where c: "c \<in> set (priorityQueue ?g)" "is_min (priorityQueue ?g) c"
      and eq: "st3 = ?g\<lparr>priorityQueue := remove1 c (priorityQueue ?g),
                   printer := printer ?g @ [Print (log c)],
                   heap := (heap ?g)(source c :=
                     (heap ?g (source c))\<lparr>bufferCount := bufferCount (heap ?g (source c)) - 1\<rparr>)\<rparr>"
      by (rule printNext_Inr)
    have "tick m picks st = Inr (retire st3)"
      by (simp add: tick_gate_point[OF p] emission_def gate st3)
    moreover have "printer (retire st3) = printer st @ [Print (log c)]"
      by (simp add: eq gate_point_fields(1)[OF p])
    moreover have "priorityQueue (retire st3) = remove1 c (priorityQueue ?g)"
      by (simp add: eq)
    ultimately show "\<exists>c st'. tick m picks st = Inr st'
               \<and> c \<in> set (priorityQueue ?g) \<and> is_min (priorityQueue ?g) c
               \<and> printer st' = printer st @ [Print (log c)]
               \<and> priorityQueue st' = remove1 c (priorityQueue ?g)"
      using c by blast
  next
    assume gate: "\<not> allSourcesHaveBeenRead ?g"
    have "tick m picks st = Inr (retire ?g)"
      by (simp add: tick_gate_point[OF p] emission_def gate)
    moreover have "printer (retire ?g) = printer st"
      by (simp add: gate_point_fields(1)[OF p])
    ultimately show "\<exists>st'. tick m picks st = Inr st' \<and> printer st' = printer st
               \<and> priorityQueue st' = priorityQueue ?g"
      by simp
  qed
qed

subsection \<open>The first passes over more than fifty sources\<close>

lemma findNext_first_idle:
  assumes "\<forall>x\<in>set xs. loading (h x)" "\<not> loading (h n)" "bufferCount (h n) = 0"
  shows "findNextLogSourceToQueue h (xs @ n # ys) m = Some n"
  using assms by (induction xs) simp_all

lemma upt_split: "n < k \<Longrightarrow> [0..<k] = [0..<n] @ n # [Suc n..<k]"
  by (metis le_add2 le_add_same_cancel2 less_imp_add_positive upt_add_eq_append
      upt_conv_Cons)

lemma filling_findNext:
  assumes "filling k n st" "n < k"
  shows "findNextLogSourceToQueue (heap st) (logSources st) None = Some n"
proof -
  from assms(1) have l: "logSources st = [0..<k]" by (simp add: filling_def)
  have "findNextLogSourceToQueue (heap st) ([0..<n] @ n # [Suc n..<k]) None = Some n"
    using assms(1) by (intro findNext_first_idle) (simp_all add: filling_def)
  with upt_split[OF assms(2)] l show ?thesis by simp
qed

lemma filling_admission:
  assumes f: "filling k n st" and n: "n < k"
  shows "admission False st = queueLogFromSource n st"
    and "promiseQueue (admission False st) = [0..<Suc n]"
    and "pending (admission False st) = [0..<Suc n]"
proof -
  show a: "admission False st = queueLogFromSource n st"
    by (simp add: admission_def addNextLogToQueue_def filling_findNext[OF f n])
  from f show "promiseQueue (admission False st) = [0..<Suc n]"
    by (simp add: a filling_def)
  from f show "pending (admission False st) = [0..<Suc n]"
    by (auto simp: a filling_def pending_def)
qed

lemma filling_tick:
  assumes f: "filling k n st" and n: "n < 50" and k: "50 < k"
  shows "\<exists>st'. tick (k * 10) picks st = Inr st' \<and> filling k (Suc n) st'"
proof -
  let ?st1 = "queueLogFromSource n st"
  from n k have nk: "n < k" "Suc n < k" by simp_all
  from f have l: "logSources st = [0..<k]" and q: "priorityQueue st = []"
    and pr: "promiseQueue st = [0..<n]"
    by (simp_all add: filling_def)
  from n k have full: "priorityQueueIsFull (priorityQueue st) (k * 10) (promiseQueue st) = Inr False"
    by (simp add: priorityQueueIsFull_def q pr)
  from n have fp: "promiseQueueIsFull (promiseQueue st) 50 = False"
    by (simp add: promiseQueueIsFull_def pr)
  have adm: "admission False st = ?st1" by (rule filling_admission[OF f nk(1)])
  from f nk(2) have "\<not> loading (heap ?st1 (Suc n))" by (simp add: filling_def)
  moreover from nk(2) l have "Suc n \<in> set (logSources ?st1)" by simp
  ultimately have "\<not> allSourcesAreLoading ?st1"
    unfolding allSourcesAreLoading_def list_all_iff by blast
  then have dr: "drain False False picks ?st1 = ?st1"
    by (simp add: drain_def drains_def)
  from f k l have "\<not> allSourcesHaveBeenRead ?st1"
    by (auto simp: allSourcesHaveBeenRead_def list_all_iff filling_def)
  then have em: "emission ?st1 = Inr ?st1" by (simp add: emission_def)
  have t: "tick (k * 10) picks st = Inr (retire ?st1)"
    by (simp add: tick_def full fp adm dr em)
  from f nk(1) have nd: "\<forall>i<k. \<not> drained (heap ?st1 i)"
    by (auto simp: filling_def)
  then have "filter (\<lambda>i. \<not> drained (heap ?st1 i)) [0..<k] = [0..<k]"
    by (simp add: filter_id_conv)
  with f nd have "filling k (Suc n) (retire ?st1)"
    by (auto simp: filling_def l)
  with t show ?thesis by blast
qed

lemma filling_initial:
  assumes "\<forall>s\<in>set srcs. \<not> drained s" "\<forall>s\<in>set srcs. upcoming s \<noteq> []"
  shows "filling (length srcs) 0 (initial srcs)"
  using assms(2) by (simp add: filling_def initial_fields initial_drained[OF assms(1)])

lemma filling_passes:
  assumes "\<forall>s\<in>set srcs. \<not> drained s" "\<forall>s\<in>set srcs. upcoming s \<noteq> []"
    and "50 < length srcs" "n \<le> 50"
  shows "\<exists>st. passes (length srcs * 10) sched n (initial srcs) = Inr st
           \<and> filling (length srcs) n st"
  using assms(4)
proof (induction n)
  case 0
  from filling_initial[OF assms(1,2)] show ?case by simp
next
  case (Suc n)
  then obtain st where st: "passes (length srcs * 10) sched n (initial srcs) = Inr st"
    "filling (length srcs) n st" by auto
  from assms(3) have "srcs \<noteq> []" by auto
  with st(2) have "continueLoop st" by (simp add: continueLoop_def filling_def)
  moreover from Suc.prems have "n < 50" by simp
  from filling_tick[OF st(2) this assms(3), of "sched n"] obtain st' where
    "tick (length srcs * 10) (sched n) st = Inr st'" "filling (length srcs) (Suc n) st'" by blast
  ultimately show ?case using st(1) by simp
qed

subsection \<open>The size of the batch\<close>

lemma admission_promiseQueue:
  "length (promiseQueue (admission full st)) \<le> Suc (length (promiseQueue st))"
  "length (promiseQueue st) \<le> length (promiseQueue (admission full st))"
  by (simp_all add: admission_def addNextLogToQueue_def split: option.splits)

lemma emission_promiseQueue:
  "emission st = Inr st' \<Longrightarrow> promiseQueue st' = promiseQueue st"
  by (auto simp: emission_def printNext_fields(2) split: if_splits)

lemma settle_points_promiseQueue:
  "p \<in> set (settle_points is st) \<Longrightarrow> promiseQueue p = promiseQueue st"
  by (induction "is" arbitrary: st) auto

lemma pass_promiseQueue_bound:
  assumes "length (promiseQueue st) \<le> 50"
  shows "\<forall>p\<in>set (pass_points m picks st). length (promiseQueue p) \<le> 51"
    and "tick m picks st = Inr st' \<Longrightarrow> length (promiseQueue st') \<le> 50"
proof -
  define fp where "fp = promiseQueueIsFull (promiseQueue st) 50"
  have *: "length (promiseQueue (admission full st)) \<le> 51
      \<and> length (promiseQueue (drain full fp picks (admission full st))) \<le> 50" for full
  proof (cases fp)
    case True
    with assms have "length (promiseQueue st) = 50"
      by (simp add: fp_def promiseQueueIsFull_def)
    with admission_promiseQueue[where full = full and st = st] True show ?thesis
      by (simp add: drain_def drains_def)
  next
    case False
    then have "length (promiseQueue st) < 50"
      by (simp add: fp_def promiseQueueIsFull_def)
    with admission_promiseQueue(1)[where full = full and st = st] show ?thesis
      by (simp add: drain_def)
  qed
  show "\<forall>p\<in>set (pass_points m picks st). length (promiseQueue p) \<le> 51"
  proof
    fix p assume p: "p \<in> set (pass_points m picks st)"
    then obtain full where
      full: "priorityQueueIsFull (priorityQueue st) m (promiseQueue st) = Inr full"
      by (cases "priorityQueueIsFull (priorityQueue st) m (promiseQueue st)")
        (simp_all add: pass_points_def)
    let ?st1 = "admission full st" and ?st2 = "drain full fp picks (admission full st)"
    have pts: "pass_points m picks st =
        ?st1 # (if drains full fp ?st1
                then settle_points (completion_order picks (promiseQueue ?st1)) ?st1 else []) @
        ?st2 # (case emission ?st2 of Inl e \<Rightarrow> [] | Inr st3 \<Rightarrow> [st3, retire st3])"
      by (simp add: pass_points_def full Let_def fp_def)
    show "length (promiseQueue p) \<le> 51"
    proof (cases "emission ?st2")
      case (Inl e)
      with p pts *[of full] settle_points_promiseQueue[of p _ ?st1] show ?thesis
        by (auto split: if_splits)
    next
      case (Inr st3)
      from emission_promiseQueue[OF this] have "promiseQueue st3 = promiseQueue ?st2" .
      with Inr p pts *[of full] settle_points_promiseQueue[of p _ ?st1] show ?thesis
        by (auto split: if_splits)
    qed
  qed
  show "length (promiseQueue st') \<le> 50" if "tick m picks st = Inr st'"
  proof -
    from that obtain full st3 where
      "emission (drain full fp picks (admission full st)) = Inr st3" "st' = retire st3"
      by (auto simp: tick_def Let_def fp_def split: sum.splits)
    with emission_promiseQueue[OF this(1)] *[of full] show ?thesis by simp
  qed
qed

lemma passes_promiseQueue_bound:
  "passes m sched n (initial srcs) = Inr st \<Longrightarrow> length (promiseQueue st) \<le> 50"
proof (induction n arbitrary: st)
  case 0
  then show ?case by (auto simp: initial_def initializeSources_def)
next
  case (Suc n)
  from Suc.prems obtain st0 where st0: "passes m sched n (initial srcs) = Inr st0"
    by (cases "passes m sched n (initial srcs)") simp_all
  from Suc.IH[OF st0] have le: "length (promiseQueue st0) \<le> 50" .
  show ?case
  proof (cases "continueLoop st0")
    case True
    with Suc.prems st0 have "tick m (sched n) st0 = Inr st" by simp
    from pass_promiseQueue_bound(2)[OF le this] show ?thesis .
  next
    case False
    with Suc.prems st0 le show ?thesis by simp
  qed
qed

lemma run_points_promiseQueue_bound:
  assumes "p \<in> set (run_points sched srcs n)"
  shows "length (promiseQueue p) \<le> 51"
proof -
  from assms obtain st where st: "passes (length srcs * 10) sched n (initial srcs) = Inr st"
    by (cases "passes (length srcs * 10) sched n (initial srcs)") (simp_all add: run_points_def)
  with assms have p: "p = st \<or> p \<in> set (pass_points (length srcs * 10) (sched n) st)"
    by (auto simp: run_points_def split: if_splits)
  from passes_promiseQueue_bound[OF st] have le: "length (promiseQueue st) \<le> 50" .
  from p show ?thesis
  proof
    assume "p = st"
    with le show ?thesis by simp
  next
    assume "p \<in> set (pass_points (length srcs * 10) (sched n) st)"
    with pass_promiseQueue_bound(1)[OF le] show ?thesis by blast
  qed
qed

section \<open>The order and the completeness of the asynchronous output\<close>

lemma printed_append [simp]: "printed (es @ es') = printed es @ printed es'"
  by (induction es rule: printed.induct) simp_all

lemma chronological_snoc:
  assumes "chronological ls" "\<forall>l\<in>set ls. \<exists>a. l = Some a \<and> date a \<le> date e"
  shows "chronological (ls @ [Some e])"
  using assms
proof (induction ls rule: chronological.induct)
  case 1
  show ?case by simp
next
  case (2 l)
  then show ?case by auto
next
  case (3 l l' ls)
  then show ?case by (auto split: option.splits)
qed

lemma future_queueLogFromSource:
  assumes "\<not> loading (heap st i)" "\<not> drained (heap st i)"
  shows "future (queueLogFromSource i st) j = future st j"
proof (cases "j = i")
  case True
  with assms show ?thesis
    by (cases "upcoming (heap st i)")
      (simp_all add: future_def queueLogFromSource_def advance_def)
next
  case False
  then show ?thesis by (simp add: future_def queueLogFromSource_def)
qed

lemma order_inv_queueLogFromSource:
  assumes "order_inv st" "\<not> loading (heap st i)" "\<not> drained (heap st i)"
  shows "order_inv (queueLogFromSource i st)"
proof -
  have f: "future (queueLogFromSource i st) j = future st j" for j
    by (rule future_queueLogFromSource[OF assms(2,3)])
  from assms(1) show ?thesis
    unfolding order_inv_def f by (auto simp: tl_Nil)
qed

lemma future_settle:
  "future (settle i st) j =
     (if j = i \<and> loading (heap st i) \<and> \<not> drained (heap st i) then upcoming (heap st i)
      else future st j)"
  by (auto simp: future_def settle_def Let_def current_def)

lemma order_inv_settle:
  assumes o: "order_inv st" and l: "loading (heap st i)"
  shows "order_inv (settle i st)"
proof (cases "drained (heap st i)")
  case True
  then have f: "future (settle i st) j = future st j" for j
    by (simp add: future_settle)
  from True have q: "priorityQueue (settle i st) = priorityQueue st"
    by (simp add: settle_queue)
  from o show ?thesis
    unfolding order_inv_def f q by simp
next
  case False
  let ?e = "last_entry (heap st i)" and ?c = "\<lparr>log = Some (last_entry (heap st i)), source = i\<rparr>"
  from False l have fi: "future st i = ?e # upcoming (heap st i)"
    by (simp add: future_def)
  have f: "future (settle i st) j = (if j = i then upcoming (heap st i) else future st j)" for j
    using False l by (simp add: future_settle)
  have sub: "set (future (settle i st) j) \<subseteq> set (future st j)" for j
    using fi by (auto simp: f)
  from False have q: "priorityQueue (settle i st) = priorityQueue st @ [?c]"
    by (simp add: settle_queue)
  from o have s: "sorted (map date (future st j))" for j by (simp add: order_inv_def)
  have 1: "\<forall>c\<in>set (priorityQueue (settle i st)). log c \<noteq> None"
    using o by (auto simp: q order_inv_def)
  have 2: "\<forall>j. sorted (map date (future (settle i st) j))"
    using s s[of i] by (simp add: f fi)
  have 3: "\<forall>c\<in>set (priorityQueue (settle i st)).
             \<forall>g\<in>set (future (settle i st) (source c)). cand_date c \<le> date g"
  proof (intro ballI)
    fix c g assume c: "c \<in> set (priorityQueue (settle i st))"
      and g: "g \<in> set (future (settle i st) (source c))"
    show "cand_date c \<le> date g"
    proof (cases "c = ?c")
      case True
      with g have "g \<in> set (upcoming (heap st i))" by (simp add: f)
      with s[of i] True show ?thesis by (auto simp: fi cand_date_def)
    next
      case False
      with c have "c \<in> set (priorityQueue st)" by (simp add: q)
      moreover from g sub have "g \<in> set (future st (source c))" by blast
      ultimately show ?thesis using o by (simp add: order_inv_def)
    qed
  qed
  have 5: "\<forall>l\<in>set (printed (printer (settle i st))). \<exists>e. l = Some e \<and>
          (\<forall>c\<in>set (priorityQueue (settle i st)). date e \<le> cand_date c) \<and>
          (\<forall>j. \<forall>g\<in>set (future (settle i st) j). date e \<le> date g)"
  proof
    fix l assume "l \<in> set (printed (printer (settle i st)))"
    then have "l \<in> set (printed (printer st))" by simp
    with o obtain e where e: "l = Some e" "\<forall>c\<in>set (priorityQueue st). date e \<le> cand_date c"
      "\<forall>j. \<forall>g\<in>set (future st j). date e \<le> date g"
      unfolding order_inv_def by blast
    from fi have "?e \<in> set (future st i)" by simp
    with e(3) have "date e \<le> date ?e" by blast
    with e(2) have "\<forall>c\<in>set (priorityQueue (settle i st)). date e \<le> cand_date c"
      by (simp add: q cand_date_def)
    moreover from e(3) sub have "\<forall>j. \<forall>g\<in>set (future (settle i st) j). date e \<le> date g"
      by blast
    ultimately show "\<exists>e. l = Some e \<and>
          (\<forall>c\<in>set (priorityQueue (settle i st)). date e \<le> cand_date c) \<and>
          (\<forall>j. \<forall>g\<in>set (future (settle i st) j). date e \<le> date g)"
      using e(1) by blast
  qed
  from o 1 2 3 5 show ?thesis
    unfolding order_inv_def by simp
qed

lemma order_inv_fold_settle:
  assumes "order_inv st" "distinct is" "\<forall>i\<in>set is. loading (heap st i)"
  shows "order_inv (fold settle is st)"
  using assms
proof (induction "is" arbitrary: st)
  case Nil
  then show ?case by simp
next
  case (Cons i "is")
  from Cons.prems have "order_inv (settle i st)" by (intro order_inv_settle) simp_all
  moreover from Cons.prems have "distinct is" "\<forall>j\<in>set is. loading (heap (settle i st) j)"
    by auto
  ultimately show ?case using Cons.IH by simp
qed

lemma order_inv_promiseQueue:
  "order_inv (st\<lparr>promiseQueue := pr\<rparr>) = order_inv st"
  by (simp add: order_inv_def future_def)

lemma order_inv_await_all:
  assumes "order_inv st" "batch_inv m st"
  shows "order_inv (await_all picks st)"
proof -
  from assms(2) have "distinct (completion_order picks (promiseQueue st))"
    "\<forall>i\<in>set (completion_order picks (promiseQueue st)). loading (heap st i)"
    by (simp_all add: batch_inv_def point_inv_def)
  from order_inv_fold_settle[OF assms(1) this] show ?thesis
    by (simp add: await_all_def order_inv_promiseQueue)
qed

lemma is_min_cand_date:
  assumes "is_min q c" "d \<in> set q" "log c \<noteq> None" "log d \<noteq> None"
  shows "cand_date c \<le> cand_date d"
proof -
  from assms(1,2) have "\<not> js_less (key d) (key c)"
    by (simp add: is_min_def list_all_iff)
  with assms(3,4) show ?thesis
    by (auto simp: key_def cand_date_def)
qed

lemma future_drained_away:
  assumes "order_inv st" "i \<notin> set (logSources st)"
  shows "future st i = []"
  using assms by (simp add: order_inv_def future_def)

lemma order_inv_printNext:
  assumes o: "order_inv st" and p: "point_inv m st" and gate: "allSourcesHaveBeenRead st"
    and pr: "printNextLogFromQueue st = Inr st'"
  shows "order_inv st'"
proof -
  from pr obtain c where c: "c \<in> set (priorityQueue st)" "is_min (priorityQueue st) c"
    and st': "st' = st\<lparr>priorityQueue := remove1 c (priorityQueue st),
                   printer := printer st @ [Print (log c)],
                   heap := (heap st)(source c :=
                     (heap st (source c))\<lparr>bufferCount := bufferCount (heap st (source c)) - 1\<rparr>)\<rparr>"
    by (rule printNext_Inr)
  from o c(1) obtain e where e: "log c = Some e" by (auto simp: order_inv_def)
  then have ce: "cand_date c = date e" by (simp add: cand_date_def)
  have f: "future st' j = future st j" for j by (simp add: future_def st')
  have q: "set (priorityQueue st') \<subseteq> set (priorityQueue st)"
    using set_remove1_subset[of c "priorityQueue st"] by (simp add: st')
  have pe: "printed (printer st') = printed (printer st) @ [Some e]"
    by (simp add: st' e)
  have least: "date e \<le> cand_date d" if "d \<in> set (priorityQueue st)" for d
    using is_min_cand_date[OF c(2) that] o that e ce by (auto simp: order_inv_def)
  have ahead: "date e \<le> date g" if g: "g \<in> set (future st i)" for i g
  proof -
    have "i \<in> set (logSources st)"
    proof (rule ccontr)
      assume "i \<notin> set (logSources st)"
      from future_drained_away[OF o this] g show False by simp
    qed
    with gate have "0 < bufferCount (heap st i)"
      by (simp add: allSourcesHaveBeenRead_def list_all_iff)
    with p have "0 < resident st i" by (simp add: point_inv_def)
    then obtain d where d: "d \<in> set (priorityQueue st)" "source d = i"
      by (auto simp: resident_def filter_empty_conv)
    with o g have "cand_date d \<le> date g" by (auto simp: order_inv_def)
    with least[OF d(1)] show ?thesis by simp
  qed
  have old: "\<exists>a. l = Some a \<and> date a \<le> date e
      \<and> (\<forall>d\<in>set (priorityQueue st). date a \<le> cand_date d)
      \<and> (\<forall>i. \<forall>g\<in>set (future st i). date a \<le> date g)"
    if "l \<in> set (printed (printer st))" for l
  proof -
    from o that obtain a where a: "l = Some a"
      "\<forall>d\<in>set (priorityQueue st). date a \<le> cand_date d"
      "\<forall>i. \<forall>g\<in>set (future st i). date a \<le> date g"
      unfolding order_inv_def by blast
    from a(2) c(1) ce have "date a \<le> date e" by auto
    with a show ?thesis by blast
  qed
  have "\<forall>l\<in>set (printed (printer st)). \<exists>a. l = Some a \<and> date a \<le> date e"
    using old by blast
  moreover from o have "chronological (printed (printer st))" by (simp add: order_inv_def)
  ultimately have 4: "chronological (printed (printer st'))"
    unfolding pe by (intro chronological_snoc)
  have 5: "\<forall>l\<in>set (printed (printer st')). \<exists>a. l = Some a \<and>
          (\<forall>d\<in>set (priorityQueue st'). date a \<le> cand_date d) \<and>
          (\<forall>i. \<forall>g\<in>set (future st' i). date a \<le> date g)"
  proof
    fix l assume "l \<in> set (printed (printer st'))"
    then consider "l = Some e" | "l \<in> set (printed (printer st))" by (auto simp: pe)
    then show "\<exists>a. l = Some a \<and>
          (\<forall>d\<in>set (priorityQueue st'). date a \<le> cand_date d) \<and>
          (\<forall>i. \<forall>g\<in>set (future st' i). date a \<le> date g)"
    proof cases
      case 1
      with least ahead q show ?thesis by (auto simp: f)
    next
      case 2
      from old[OF this] q show ?thesis by (auto simp: f)
    qed
  qed
  have 6: "\<forall>i. drained (heap st' i) \<longrightarrow> upcoming (heap st' i) = []"
    using o by (simp add: order_inv_def printNext_fields[OF pr])
  have 7: "\<forall>i. i \<notin> set (logSources st') \<longrightarrow> drained (heap st' i)"
    using o by (simp add: order_inv_def printNext_fields[OF pr])
  from o q have 13: "(\<forall>c\<in>set (priorityQueue st'). log c \<noteq> None) \<and>
      (\<forall>i. sorted (map date (future st' i))) \<and>
      (\<forall>c\<in>set (priorityQueue st'). \<forall>f\<in>set (future st' (source c)). cand_date c \<le> date f)"
    unfolding order_inv_def f by blast
  from 13 4 5 6 7 show ?thesis unfolding order_inv_def by blast
qed

lemma order_inv_retire:
  assumes "order_inv st"
  shows "order_inv (retire st)"
proof -
  have f: "future (retire st) j = future st j" for j by (simp add: future_def)
  from assms show ?thesis
    unfolding order_inv_def f by auto
qed

lemma order_inv_admission:
  assumes o: "order_inv st" and h: "head_inv m st"
  shows "order_inv (admission full st)"
proof (cases "findNextLogSourceToQueue (heap st) (logSources st) None")
  case None
  with o show ?thesis by (simp add: admission_def addNextLogToQueue_def)
next
  case (Some i)
  from findNext_Some[OF Some] have i: "i \<in> set (logSources st)" "\<not> loading (heap st i)"
    by simp_all
  with h have "\<not> drained (heap st i)" by (simp add: head_inv_def)
  from order_inv_queueLogFromSource[OF o i(2) this] o Some show ?thesis
    by (simp add: admission_def addNextLogToQueue_def)
qed

lemma order_inv_gate_point:
  assumes o: "order_inv st" and h: "head_inv m st"
  shows "order_inv (gate_point m picks st)"
proof -
  let ?full = "m \<le> length (priorityQueue st) + length (promiseQueue st)"
  from h have p: "point_inv m st" by (simp add: head_inv_def batch_inv_def)
  have b1: "batch_inv m (admission ?full st)"
    by (rule admission_batch_inv[OF h]) simp
  from order_inv_admission[OF o h] order_inv_await_all[OF _ b1]
  show ?thesis
    by (simp add: gate_point_def priorityQueueIsFull_Inr[OF p] drain_def)
qed

lemma order_inv_tick:
  assumes o: "order_inv st" and h: "head_inv m st" and t: "tick m picks st = Inr st'"
  shows "order_inv st'"
proof -
  let ?g = "gate_point m picks st"
  from h have p: "point_inv m st" by (simp add: head_inv_def batch_inv_def)
  have og: "order_inv ?g" by (rule order_inv_gate_point[OF o h])
  from gate_point_batch_inv[OF h] have pg: "point_inv m ?g" by (simp add: batch_inv_def)
  from t obtain st3 where st3: "emission ?g = Inr st3" "st' = retire st3"
    by (auto simp: tick_gate_point[OF p] split: sum.splits)
  have "order_inv st3"
  proof (cases "allSourcesHaveBeenRead ?g")
    case True
    with st3(1) have "printNextLogFromQueue ?g = Inr st3" by (simp add: emission_def)
    from order_inv_printNext[OF og pg True this] show ?thesis .
  next
    case False
    with st3(1) og show ?thesis by (simp add: emission_def)
  qed
  with st3(2) show ?thesis by (simp add: order_inv_retire)
qed

lemma future_initial:
  "future (initial srcs) i = (if i < length srcs then upcoming (srcs ! i) else [])"
  by (simp add: future_def initial_fields)

lemma order_inv_initial:
  assumes "\<forall>s\<in>set srcs. \<not> drained s" "\<forall>s\<in>set srcs. sorted (map date (upcoming s))"
  shows "order_inv (initial srcs)"
  using assms(2)
  by (auto simp: order_inv_def future_initial initial_fields initial_drained[OF assms(1)])

subsection \<open>No entry is lost and none is printed twice\<close>

lemma concat_take_one:
  assumes "distinct xs" "i \<in> set xs" "f i = e # g i" "\<forall>j. j \<noteq> i \<longrightarrow> g j = f j"
  shows "mset (concat (map f xs)) = add_mset e (mset (concat (map g xs)))"
  using assms(1,2)
proof (induction xs)
  case Nil
  then show ?case by simp
next
  case (Cons x xs)
  show ?case
  proof (cases "x = i")
    case True
    with Cons.prems have "i \<notin> set xs" by simp
    with assms(4) have "map g xs = map f xs" by (intro map_cong) auto
    then have "concat (map g xs) = concat (map f xs)" by (rule arg_cong)
    with True assms(3) show ?thesis by simp
  next
    case False
    with Cons have "mset (concat (map f xs)) = add_mset e (mset (concat (map g xs)))" by simp
    with False assms(4) show ?thesis by simp
  qed
qed

lemma accounted_same:
  assumes "printer st' = printer st" "priorityQueue st' = priorityQueue st"
    "\<forall>j. future st' j = future st j"
  shows "accounted k st' = accounted k st"
proof -
  from assms(3) have "future st' = future st" by (intro ext) simp
  with assms(1,2) show ?thesis by (simp add: accounted_def)
qed

lemma complete_inv_queueLogFromSource:
  assumes "complete_inv k ess st" "\<not> loading (heap st i)" "\<not> drained (heap st i)"
  shows "complete_inv k ess (queueLogFromSource i st)"
proof -
  have f: "\<forall>j. future (queueLogFromSource i st) j = future st j"
    using future_queueLogFromSource[OF assms(2,3)] by simp
  then have "accounted k (queueLogFromSource i st) = accounted k st"
    by (intro accounted_same) simp_all
  with assms(1) f show ?thesis by (simp add: complete_inv_def)
qed

lemma complete_inv_settle:
  assumes c: "complete_inv k ess st" and l: "loading (heap st i)"
  shows "complete_inv k ess (settle i st)"
proof (cases "drained (heap st i)")
  case True
  then have f: "\<forall>j. future (settle i st) j = future st j" by (simp add: future_settle)
  moreover from True have "priorityQueue (settle i st) = priorityQueue st"
    by (simp add: settle_queue)
  ultimately have "accounted k (settle i st) = accounted k st"
    by (intro accounted_same) simp_all
  with c f show ?thesis by (simp add: complete_inv_def)
next
  case False
  let ?e = "last_entry (heap st i)"
  from False l have fi: "future st i = ?e # future (settle i st) i"
    by (simp add: future_settle) (simp add: future_def)
  have fj: "\<forall>j. j \<noteq> i \<longrightarrow> future (settle i st) j = future st j"
    by (simp add: future_settle)
  from c fi have "i < k" by (auto simp: complete_inv_def not_le[symmetric])
  then have "mset (concat (map (future st) [0..<k]))
      = add_mset ?e (mset (concat (map (future (settle i st)) [0..<k])))"
    using fi fj by (intro concat_take_one) simp_all
  moreover from False have "priorityQueue (settle i st)
      = priorityQueue st @ [\<lparr>log = Some ?e, source = i\<rparr>]"
    by (simp add: settle_queue)
  ultimately have "accounted k (settle i st) = accounted k st"
    by (simp add: accounted_def)
  moreover have "\<forall>j. k \<le> j \<longrightarrow> future (settle i st) j = []"
    using c \<open>i < k\<close> fj by (auto simp: complete_inv_def)
  ultimately show ?thesis using c by (simp add: complete_inv_def)
qed

lemma complete_inv_fold_settle:
  assumes "complete_inv k ess st" "distinct is" "\<forall>i\<in>set is. loading (heap st i)"
  shows "complete_inv k ess (fold settle is st)"
  using assms
proof (induction "is" arbitrary: st)
  case Nil
  then show ?case by simp
next
  case (Cons i "is")
  from Cons.prems have "complete_inv k ess (settle i st)"
    by (intro complete_inv_settle) simp_all
  moreover from Cons.prems have "distinct is" "\<forall>j\<in>set is. loading (heap (settle i st) j)"
    by auto
  ultimately show ?case using Cons.IH by simp
qed

lemma complete_inv_promiseQueue:
  "complete_inv k ess (st\<lparr>promiseQueue := pr\<rparr>) = complete_inv k ess st"
proof -
  have "future (st\<lparr>promiseQueue := pr\<rparr>) = future st"
    by (intro ext) (simp add: future_def)
  then show ?thesis by (simp add: complete_inv_def accounted_def)
qed

lemma complete_inv_await_all:
  assumes "complete_inv k ess st" "batch_inv m st"
  shows "complete_inv k ess (await_all picks st)"
proof -
  from assms(2) have "distinct (completion_order picks (promiseQueue st))"
    "\<forall>i\<in>set (completion_order picks (promiseQueue st)). loading (heap st i)"
    by (simp_all add: batch_inv_def point_inv_def)
  from complete_inv_fold_settle[OF assms(1) this] show ?thesis
    by (simp add: await_all_def complete_inv_promiseQueue)
qed

lemma complete_inv_printNext:
  assumes c: "complete_inv k ess st" and pr: "printNextLogFromQueue st = Inr st'"
  shows "complete_inv k ess st'"
proof -
  from pr obtain c where mem: "c \<in> set (priorityQueue st)"
    and st': "st' = st\<lparr>priorityQueue := remove1 c (priorityQueue st),
                   printer := printer st @ [Print (log c)],
                   heap := (heap st)(source c :=
                     (heap st (source c))\<lparr>bufferCount := bufferCount (heap st (source c)) - 1\<rparr>)\<rparr>"
    by (rule printNext_Inr)
  have f: "future st' = future st" by (intro ext) (simp add: future_def st')
  from mem have "mset (map log (priorityQueue st))
      = add_mset (log c) (mset (map log (remove1 c (priorityQueue st))))"
    by (metis insert_DiffM mset_map mset_remove1 image_mset_add_mset set_mset_mset)
  moreover have "priorityQueue st' = remove1 c (priorityQueue st)"
    "printed (printer st') = printed (printer st) @ [log c]"
    by (simp_all add: st')
  ultimately have "accounted k st' = accounted k st"
    by (simp add: accounted_def f)
  with c f show ?thesis by (simp add: complete_inv_def)
qed

lemma complete_inv_retire:
  "complete_inv k ess (retire st) = complete_inv k ess st"
proof -
  have "future (retire st) = future st"
    by (intro ext) (simp add: future_def)
  then show ?thesis by (simp add: complete_inv_def accounted_def)
qed

lemma complete_inv_tick:
  assumes c: "complete_inv k ess st" and h: "head_inv m st" and t: "tick m picks st = Inr st'"
  shows "complete_inv k ess st'"
proof -
  let ?full = "m \<le> length (priorityQueue st) + length (promiseQueue st)"
  let ?g = "gate_point m picks st"
  from h have p: "point_inv m st" by (simp add: head_inv_def batch_inv_def)
  have c1: "complete_inv k ess (admission ?full st)"
  proof (cases "findNextLogSourceToQueue (heap st) (logSources st) None")
    case None
    with c show ?thesis by (simp add: admission_def addNextLogToQueue_def)
  next
    case (Some i)
    from findNext_Some[OF Some] have i: "i \<in> set (logSources st)" "\<not> loading (heap st i)"
      by simp_all
    with h have "\<not> drained (heap st i)" by (simp add: head_inv_def)
    from complete_inv_queueLogFromSource[OF c i(2) this] c Some show ?thesis
      by (simp add: admission_def addNextLogToQueue_def)
  qed
  have b1: "batch_inv m (admission ?full st)"
    by (rule admission_batch_inv[OF h]) simp
  from c1 complete_inv_await_all[OF c1 b1] have cg: "complete_inv k ess ?g"
    by (simp add: gate_point_def priorityQueueIsFull_Inr[OF p] drain_def)
  from t obtain st3 where st3: "emission ?g = Inr st3" "st' = retire st3"
    by (auto simp: tick_gate_point[OF p] split: sum.splits)
  from st3(1) cg have "complete_inv k ess st3"
    by (auto simp: emission_def complete_inv_printNext split: if_splits)
  with st3(2) show ?thesis by (simp add: complete_inv_retire)
qed

lemma complete_inv_initial:
  "complete_inv (length srcs) (map upcoming srcs) (initial srcs)"
proof -
  have "map (future (initial srcs)) [0..<length srcs] = map upcoming srcs"
    by (rule nth_equalityI) (simp_all add: future_initial)
  then show ?thesis
    by (simp add: complete_inv_def accounted_def initial_fields future_initial)
qed

lemma closed_inv_tick:
  assumes c: "closed_inv st" and p: "point_inv m st" and t: "tick m picks st = Inr st'"
  shows "closed_inv st'"
proof -
  let ?full = "m \<le> length (priorityQueue st) + length (promiseQueue st)"
  let ?g = "gate_point m picks st"
  from c have c1: "closed_inv (admission ?full st)"
    by (auto simp: closed_inv_def admission_def addNextLogToQueue_def split: option.splits)
  then have cg: "closed_inv ?g"
    by (simp add: gate_point_def priorityQueueIsFull_Inr[OF p] drain_def closed_inv_def)
  from t obtain st3 where st3: "emission ?g = Inr st3" "st' = retire st3"
    by (auto simp: tick_gate_point[OF p] split: sum.splits)
  from st3(1) cg have "closed_inv st3"
    by (auto simp: emission_def closed_inv_def printNext_fields split: if_splits)
  with st3(2) show ?thesis by (auto simp: closed_inv_def)
qed

lemma closed_inv_initial:
  assumes "\<forall>s\<in>set srcs. \<not> drained s"
  shows "closed_inv (initial srcs)"
  by (auto simp: closed_inv_def initial_fields initial_drained[OF assms])

text \<open>The main loop ends, and what every pass keeps holds at its end.\<close>

lemma main_loop_invariant:
  assumes "head_inv m st" "I st"
    and step: "\<And>st picks st'. head_inv m st \<Longrightarrow> I st \<Longrightarrow> tick m picks st = Inr st' \<Longrightarrow> I st'"
  shows "\<exists>st'. main_loop m sched n st = Some (Inr (st'\<lparr>printer := printer st' @ [Done]\<rparr>))
           \<and> head_inv m st' \<and> \<not> continueLoop st' \<and> I st'"
  using assms(1,2)
proof (induction "weight st" arbitrary: st n rule: less_induct)
  case less
  show ?case
  proof (cases "continueLoop st")
    case True
    from tick_head_inv[OF less.prems(1) True, of "sched n"] obtain st1 where
      st1: "tick m (sched n) st = Inr st1" "head_inv m st1" "weight st1 < weight st"
      by blast
    from step[OF less.prems st1(1)] have "I st1" .
    from less.hyps[OF st1(3) st1(2) this, of "Suc n"] obtain st' where
      st': "main_loop m sched (Suc n) st1 = Some (Inr (st'\<lparr>printer := printer st' @ [Done]\<rparr>))"
        "head_inv m st'" "\<not> continueLoop st'" "I st'"
      by blast
    have "main_loop m sched n st = main_loop m sched (Suc n) st1"
      by (subst main_loop.simps) (simp add: True st1(1))
    with st' show ?thesis by auto
  next
    case False
    have "main_loop m sched n st = Some (Inr (st\<lparr>printer := printer st @ [Done]\<rparr>))"
      by (subst main_loop.simps) (simp add: False)
    with False less.prems show ?thesis by blast
  qed
qed

lemma async_complete:
  assumes "\<forall>s\<in>set srcs. \<not> drained s"
  shows "\<exists>st'. asyncSortedMerge sched srcs = Some (Inr st')
         \<and> mset (printed (printer st')) = mset (map Some (concat (map upcoming srcs)))"
proof -
  let ?k = "length srcs"
  let ?I = "\<lambda>st. complete_inv ?k (map upcoming srcs) st \<and> closed_inv st"
  have step: "?I st'" if "head_inv (?k * 10) st" "?I st" "tick (?k * 10) picks st = Inr st'"
    for st picks st'
    using that complete_inv_tick[of ?k "map upcoming srcs" st "?k * 10" picks st']
      closed_inv_tick[of st "?k * 10" picks st']
    by (simp add: head_inv_def batch_inv_def)
  have "?I (initial srcs)"
    using complete_inv_initial[of srcs] closed_inv_initial[OF assms] by simp
  then have "\<exists>st'. main_loop (?k * 10) sched 0 (initial srcs)
        = Some (Inr (st'\<lparr>printer := printer st' @ [Done]\<rparr>))
      \<and> head_inv (?k * 10) st' \<and> \<not> continueLoop st' \<and> ?I st'"
    by (rule main_loop_invariant[where I = ?I, OF initial_head_inv[OF assms]]) (rule step)
  then obtain st where st: "asyncSortedMerge sched srcs
        = Some (Inr (st\<lparr>printer := printer st @ [Done]\<rparr>))"
    "\<not> continueLoop st" "complete_inv ?k (map upcoming srcs) st" "closed_inv st"
    by (auto simp: asyncSortedMerge_def)
  from st(2) have e: "logSources st = []" "priorityQueue st = []"
    by (simp_all add: continueLoop_def)
  with st(4) have "future st i = []" for i
    by (simp add: closed_inv_def future_def)
  then have "concat (map (future st) [0..<?k]) = []" by simp
  with st(3) e have "mset (printed (printer st)) = mset (map Some (concat (map upcoming srcs)))"
    by (simp add: complete_inv_def accounted_def)
  with st(1) show ?thesis by simp
qed

lemma async_chronological:
  assumes "\<forall>s\<in>set srcs. \<not> drained s" "\<forall>s\<in>set srcs. sorted (map date (upcoming s))"
  shows "\<exists>st'. asyncSortedMerge sched srcs = Some (Inr st')
           \<and> chronological (printed (printer st'))"
proof -
  let ?k = "length srcs"
  have step: "order_inv st'" if "head_inv (?k * 10) st" "order_inv st"
    "tick (?k * 10) picks st = Inr st'" for st picks st'
    using order_inv_tick[OF that(2,1,3)] .
  have "\<exists>st'. main_loop (?k * 10) sched 0 (initial srcs)
        = Some (Inr (st'\<lparr>printer := printer st' @ [Done]\<rparr>))
      \<and> head_inv (?k * 10) st' \<and> \<not> continueLoop st' \<and> order_inv st'"
    by (rule main_loop_invariant[where I = order_inv,
          OF initial_head_inv[OF assms(1)] order_inv_initial[OF assms]]) (rule step)
  then obtain st where st: "asyncSortedMerge sched srcs
        = Some (Inr (st\<lparr>printer := printer st @ [Done]\<rparr>))" "order_inv st"
    by (auto simp: asyncSortedMerge_def)
  from st(2) have "chronological (printed (printer st))" by (simp add: order_inv_def)
  with st(1) show ?thesis by simp
qed

section \<open>The order and the completeness of the synchronous output\<close>

lemma sync_body_cases:
  obtains
    (stop) "drained (s_heap st (source c)) \<or> upcoming (s_heap st (source c)) = []"
      "pq (sync_body c q st) = q"
      "s_printer (sync_body c q st) = s_printer st @ [Print (log c)]"
      "\<forall>j. upcoming (s_heap (sync_body c q st) j) = upcoming (s_heap st j)"
      "\<forall>j. drained (s_heap st j) \<longrightarrow> drained (s_heap (sync_body c q st) j)"
  | (refill) e es where "\<not> drained (s_heap st (source c))"
      "upcoming (s_heap st (source c)) = e # es"
      "pq (sync_body c q st) = q @ [\<lparr>log = Some e, source = source c\<rparr>]"
      "s_printer (sync_body c q st) = s_printer st @ [Print (log c)]"
      "upcoming (s_heap (sync_body c q st) (source c)) = es"
      "\<forall>j. j \<noteq> source c \<longrightarrow> upcoming (s_heap (sync_body c q st) j) = upcoming (s_heap st j)"
      "\<forall>j. drained (s_heap (sync_body c q st) j) = drained (s_heap st j)"
proof (cases "drained (s_heap st (source c))")
  case True
  then show ?thesis by (intro stop) (simp_all add: sync_body_def Let_def)
next
  case nd: False
  show ?thesis
  proof (cases "upcoming (s_heap st (source c))")
    case Nil
    with nd show ?thesis
      by (intro stop)
        (simp_all add: sync_body_def Let_def pop_def advance_def current_def)
  next
    case (Cons e es)
    with nd show ?thesis
      by (intro refill[of e es])
        (simp_all add: sync_body_def Let_def pop_def advance_def current_def pq_push_def)
  qed
qed

text \<open>What every pass of the loop keeps holds when the loop has ended.\<close>

lemma sync_loop_invariant:
  assumes "I st"
    and "\<And>st c q. I st \<Longrightarrow> pq_pop (pq st) = Some (c, q) \<Longrightarrow> I (sync_body c q st)"
  shows "I (sync_loop st) \<and> pq (sync_loop st) = []"
  using assms(1)
proof (induction st rule: sync_loop.induct)
  case (1 st)
  show ?case
  proof (cases "pq_pop (pq st)")
    case None
    then have "pq st = []" by (simp add: pq_pop_None_iff)
    with None 1(2) show ?thesis by (simp add: sync_loop.simps[of st])
  next
    case (Some a)
    obtain c q where a: "a = (c, q)" by (cases a)
    from assms(2)[OF 1(2) Some[unfolded a]] have "I (sync_body c q st)" .
    from 1(1)[OF Some[unfolded a] refl this] Some a show ?thesis
      by (simp add: sync_loop.simps[of st])
  qed
qed

subsection \<open>Completeness\<close>

lemma s_accounted_body:
  assumes cov: "s_covered k st" and pop: "pq_pop (pq st) = Some (c, q)"
  shows "s_accounted k (sync_body c q st) = s_accounted k st"
proof -
  from pq_pop_SomeD[OF pop] have mem: "c \<in> set (pq st)" and q: "q = remove1 c (pq st)"
    by simp_all
  from mem have m: "mset (map log (pq st)) = add_mset (log c) (mset (map log q))"
    unfolding q by (metis insert_DiffM mset_map mset_remove1 image_mset_add_mset set_mset_mset)
  show ?thesis
  proof (cases rule: sync_body_cases[of st c q])
    case stop
    from stop(4) have "(\<lambda>i. upcoming (s_heap (sync_body c q st) i)) = (\<lambda>i. upcoming (s_heap st i))"
      by (intro ext) simp
    with stop(2,3) m show ?thesis by (simp add: s_accounted_def)
  next
    case (refill e es)
    from cov refill(2) have "source c < k" by (auto simp: s_covered_def)
    then have "mset (concat (map (\<lambda>i. upcoming (s_heap st i)) [0..<k]))
        = add_mset e (mset (concat (map (\<lambda>i. upcoming (s_heap (sync_body c q st) i)) [0..<k])))"
      using refill(2,5,6) by (intro concat_take_one[where i = "source c"]) simp_all
    with refill(3,4) m show ?thesis by (simp add: s_accounted_def)
  qed
qed

lemma s_covered_body:
  assumes cov: "s_covered k st" and pop: "pq_pop (pq st) = Some (c, q)"
  shows "s_covered k (sync_body c q st)"
proof -
  from pq_pop_SomeD[OF pop] have q: "q = remove1 c (pq st)" by simp
  have keep: "\<exists>d\<in>set q. source d = j" if "\<exists>d\<in>set (pq st). source d = j" "j \<noteq> source c" for j
    using that unfolding q by (metis in_set_remove1)
  show ?thesis
  proof (cases rule: sync_body_cases[of st c q])
    case stop
    show ?thesis
      unfolding s_covered_def
    proof (intro allI impI)
      fix j assume "upcoming (s_heap (sync_body c q st) j) \<noteq> []"
      with stop(4) have u: "upcoming (s_heap st j) \<noteq> []" by simp
      with cov have j: "j < k" "\<not> drained (s_heap st j)" "\<exists>d\<in>set (pq st). source d = j"
        by (auto simp: s_covered_def)
      from u j(2) stop(1) have "j \<noteq> source c" by auto
      from keep[OF j(3) this] j(1,2) \<open>j \<noteq> source c\<close> stop(2)
      show "j < k \<and> \<not> drained (s_heap (sync_body c q st) j)
          \<and> (\<exists>c\<in>set (pq (sync_body c q st)). source c = j)"
        by (cases "drained (s_heap st (source c))")
          (auto simp: sync_body_def Let_def pop_def advance_def current_def split: list.splits)
    qed
  next
    case (refill e es)
    show ?thesis
      unfolding s_covered_def
    proof (intro allI impI)
      fix j assume u: "upcoming (s_heap (sync_body c q st) j) \<noteq> []"
      show "j < k \<and> \<not> drained (s_heap (sync_body c q st) j)
          \<and> (\<exists>c\<in>set (pq (sync_body c q st)). source c = j)"
      proof (cases "j = source c")
        case True
        with cov refill(1,2) show ?thesis
          by (auto simp: s_covered_def refill(3,7))
      next
        case False
        with u refill(6) have "upcoming (s_heap st j) \<noteq> []" by simp
        with cov have j: "j < k" "\<not> drained (s_heap st j)" "\<exists>d\<in>set (pq st). source d = j"
          by (auto simp: s_covered_def)
        from keep[OF j(3) False] j(1,2) show ?thesis
          by (auto simp: refill(3,7))
      qed
    qed
  qed
qed

subsection \<open>The first loop\<close>

lemma initial_fill_Cons: "initial_fill (i # is) st = initial_fill is (fill_one i st)"
  by (simp add: pop_def Let_def fill_one_def)

lemma fill_one_fields:
  "s_printer (fill_one i st) = s_printer st"
  "pq (fill_one i st) = pq st @ [\<lparr>log = current (advance (s_heap st i)), source = i\<rparr>]"
  "s_heap (fill_one i st) j = (if j = i then advance (s_heap st i) else s_heap st j)"
  by (simp_all add: fill_one_def pq_push_def)

lemma initial_fill_printer: "s_printer (initial_fill is st) = s_printer st"
proof (induction "is" arbitrary: st)
  case Nil
  show ?case by simp
next
  case (Cons i "is")
  show ?case unfolding initial_fill_Cons Cons.IH by (rule fill_one_fields)
qed

lemma initial_fill_heap:
  "distinct is \<Longrightarrow>
   s_heap (initial_fill is st) j = (if j \<in> set is then advance (s_heap st j) else s_heap st j)"
proof (induction "is" arbitrary: st)
  case Nil
  show ?case by simp
next
  case (Cons i "is")
  then have d: "distinct is" "i \<notin> set is" by simp_all
  show ?case unfolding initial_fill_Cons Cons.IH[OF d(1)] using d(2)
    by (auto simp: fill_one_fields)
qed

lemma initial_fill_pq:
  "distinct is \<Longrightarrow>
   pq (initial_fill is st)
     = pq st @ map (\<lambda>i. \<lparr>log = current (advance (s_heap st i)), source = i\<rparr>) is"
proof (induction "is" arbitrary: st)
  case Nil
  show ?case by simp
next
  case (Cons i "is")
  then have d: "distinct is" "i \<notin> set is" by simp_all
  have "map (\<lambda>j. \<lparr>log = current (advance (s_heap (fill_one i st) j)), source = j\<rparr>) is
      = map (\<lambda>j. \<lparr>log = current (advance (s_heap st j)), source = j\<rparr>) is"
    using d(2) by (intro map_cong) (auto simp: fill_one_fields)
  then show ?case unfolding initial_fill_Cons Cons.IH[OF d(1)]
    by (simp add: fill_one_fields)
qed

lemmas initial_fill_fields = initial_fill_printer initial_fill_pq initial_fill_heap

lemma s_accounted_fill_one:
  assumes "i < k" "\<not> drained (s_heap st i)"
  shows "s_accounted k (fill_one i st)
      = s_accounted k st + (if upcoming (s_heap st i) = [] then {#None#} else {#})"
proof (cases "upcoming (s_heap st i)")
  case Nil
  then have "(\<lambda>j. upcoming (s_heap (fill_one i st) j)) = (\<lambda>j. upcoming (s_heap st j))"
    by (intro ext) (simp add: fill_one_fields advance_def)
  with Nil show ?thesis
    by (simp add: s_accounted_def fill_one_fields advance_def current_def)
next
  case (Cons e es)
  have "mset (concat (map (\<lambda>j. upcoming (s_heap st j)) [0..<k]))
      = add_mset e (mset (concat (map (\<lambda>j. upcoming (s_heap (fill_one i st) j)) [0..<k])))"
    using assms(1) Cons
    by (intro concat_take_one[where i = i]) (simp_all add: fill_one_fields advance_def)
  with Cons assms(2) show ?thesis
    by (simp add: s_accounted_def fill_one_fields advance_def current_def)
qed

lemma s_accounted_initial_fill:
  assumes "distinct is" "\<forall>i\<in>set is. i < k \<and> \<not> drained (s_heap st i)"
  shows "s_accounted k (initial_fill is st)
           = s_accounted k st
             + replicate_mset (length (filter (\<lambda>i. upcoming (s_heap st i) = []) is)) None"
  using assms
proof (induction "is" arbitrary: st)
  case Nil
  then show ?case by simp
next
  case (Cons i "is")
  from Cons.prems have d: "distinct is" "i \<notin> set is" "i < k" "\<not> drained (s_heap st i)"
    by simp_all
  have same: "filter (\<lambda>j. upcoming (s_heap (fill_one i st) j) = []) is
      = filter (\<lambda>j. upcoming (s_heap st j) = []) is"
    using d(2) by (intro filter_cong) (auto simp: fill_one_fields)
  from Cons.prems d(2) have "\<forall>j\<in>set is. j < k \<and> \<not> drained (s_heap (fill_one i st) j)"
    by (auto simp: fill_one_fields)
  from Cons.IH[OF d(1) this]
  have "s_accounted k (initial_fill (i # is) st)
      = s_accounted k (fill_one i st)
        + replicate_mset (length (filter (\<lambda>j. upcoming (s_heap st j) = []) is)) None"
    unfolding initial_fill_Cons same .
  also note s_accounted_fill_one[OF d(3,4)]
  finally show ?case by simp
qed

lemma heap_of_advance:
  "s_heap (filled srcs) j
     = (if j < length srcs then advance (srcs ! j) else no_source)"
  by (simp add: filled_def initial_fill_fields heap_of_def)

lemma filled_fields:
  "s_printer (filled srcs) = []"
  "pq (filled srcs)
     = map (\<lambda>i. \<lparr>log = current (advance (srcs ! i)), source = i\<rparr>) [0..<length srcs]"
  "upcoming (s_heap (filled srcs) j) = (if j < length srcs then tl (upcoming (srcs ! j)) else [])"
proof -
  show "s_printer (filled srcs) = []" by (simp add: filled_def initial_fill_fields)
  have "map (\<lambda>i. \<lparr>log = current (advance (heap_of srcs i)), source = i\<rparr>)
          [0..<length srcs]
      = map (\<lambda>i. \<lparr>log = current (advance (srcs ! i)), source = i\<rparr>) [0..<length srcs]"
    by (intro map_cong) (simp_all add: heap_of_def)
  then show "pq (filled srcs)
     = map (\<lambda>i. \<lparr>log = current (advance (srcs ! i)), source = i\<rparr>) [0..<length srcs]"
    by (simp add: filled_def initial_fill_fields)
  show "upcoming (s_heap (filled srcs) j) = (if j < length srcs then tl (upcoming (srcs ! j)) else [])"
    by (simp add: heap_of_advance no_source_def)
qed

lemma filled_drained:
  assumes "\<forall>s\<in>set srcs. \<not> drained s"
  shows "drained (s_heap (filled srcs) j) = (j < length srcs \<longrightarrow> upcoming (srcs ! j) = [])"
  using assms by (simp add: heap_of_advance no_source_def)

lemma filled_accounted:
  assumes "\<forall>s\<in>set srcs. \<not> drained s"
  shows "s_accounted (length srcs) (filled srcs)
     = mset (map Some (concat (map upcoming srcs)))
       + replicate_mset (length (filter (\<lambda>s. upcoming s = []) srcs)) None"
proof -
  let ?st = "\<lparr>s_heap = heap_of srcs, pq = [], s_printer = []\<rparr>"
  have up: "map (\<lambda>i. upcoming (s_heap ?st i)) [0..<length srcs] = map upcoming srcs"
    by (rule nth_equalityI) (simp_all add: heap_of_def)
  have "filter (\<lambda>i. upcoming (heap_of srcs i) = []) [0..<length srcs]
      = filter ((\<lambda>s. upcoming s = []) \<circ> (!) srcs) [0..<length srcs]"
    by (intro filter_cong) (simp_all add: heap_of_def)
  then have "length (filter (\<lambda>i. upcoming (heap_of srcs i) = []) [0..<length srcs])
      = length (filter (\<lambda>s. upcoming s = []) (map ((!) srcs) [0..<length srcs]))"
    by (simp add: filter_map)
  then have cnt: "length (filter (\<lambda>i. upcoming (heap_of srcs i) = [])
        [0..<length srcs])
      = length (filter (\<lambda>s. upcoming s = []) srcs)"
    by (simp add: map_nth)
  have "s_accounted (length srcs) (filled srcs)
      = s_accounted (length srcs) ?st
        + replicate_mset (length (filter (\<lambda>i. upcoming (s_heap ?st i) = []) [0..<length srcs])) None"
    unfolding filled_def
    using assms by (intro s_accounted_initial_fill) (simp_all add: heap_of_def)
  also have "s_accounted (length srcs) ?st = mset (map Some (concat (map upcoming srcs)))"
    using up by (simp add: s_accounted_def)
  finally show ?thesis by (simp add: cnt)
qed

lemma filled_covered:
  assumes "\<forall>s\<in>set srcs. \<not> drained s"
  shows "s_covered (length srcs) (filled srcs)"
  unfolding s_covered_def
proof (intro allI impI)
  fix i assume "upcoming (s_heap (filled srcs) i) \<noteq> []"
  then have i: "i < length srcs" "tl (upcoming (srcs ! i)) \<noteq> []"
    by (auto simp: filled_fields split: if_splits)
  then have "upcoming (srcs ! i) \<noteq> []" by auto
  moreover from i(1) have "\<exists>c\<in>set (pq (filled srcs)). source c = i"
    by (auto simp: filled_fields)
  ultimately show "i < length srcs \<and> \<not> drained (s_heap (filled srcs) i)
      \<and> (\<exists>c\<in>set (pq (filled srcs)). source c = i)"
    using i(1) by (simp add: filled_fields filled_drained[OF assms])
qed

lemma sync_complete:
  assumes "\<forall>s\<in>set srcs. \<not> drained s"
  shows "mset (printed (syncSortedMerge srcs))
     = mset (map Some (concat (map upcoming srcs)))
       + replicate_mset (length (filter (\<lambda>s. upcoming s = []) srcs)) None"
proof -
  let ?k = "length srcs"
  let ?I = "\<lambda>st. s_covered ?k st
      \<and> s_accounted ?k st = mset (map Some (concat (map upcoming srcs)))
            + replicate_mset (length (filter (\<lambda>s. upcoming s = []) srcs)) None"
  have "?I (sync_loop (filled srcs)) \<and> pq (sync_loop (filled srcs)) = []"
  proof (rule sync_loop_invariant[where I = ?I])
    show "?I (filled srcs)" using filled_covered[OF assms] filled_accounted[OF assms] by simp
  next
    fix st c q assume "?I st" "pq_pop (pq st) = Some (c, q)"
    then show "?I (sync_body c q st)"
      using s_covered_body[of ?k st c q] s_accounted_body[of ?k st c q] by simp
  qed
  then have fin: "s_covered ?k (sync_loop (filled srcs))"
    "s_accounted ?k (sync_loop (filled srcs)) = mset (map Some (concat (map upcoming srcs)))
            + replicate_mset (length (filter (\<lambda>s. upcoming s = []) srcs)) None"
    "pq (sync_loop (filled srcs)) = []"
    by simp_all
  from fin(1,3) have "upcoming (s_heap (sync_loop (filled srcs)) i) = []" for i
    by (auto simp: s_covered_def)
  then have "concat (map (\<lambda>i. upcoming (s_heap (sync_loop (filled srcs)) i)) [0..<?k]) = []"
    by simp
  with fin(2,3) have "mset (printed (s_printer (sync_loop (filled srcs))))
      = mset (map Some (concat (map upcoming srcs)))
            + replicate_mset (length (filter (\<lambda>s. upcoming s = []) srcs)) None"
    by (simp add: s_accounted_def)
  then show ?thesis by (simp add: syncSortedMerge_def filled_def)
qed

subsection \<open>The order of the synchronous output\<close>

lemma s_order_inv_body:
  assumes o: "s_order_inv st" and pop: "pq_pop (pq st) = Some (c, q)"
  shows "s_order_inv (sync_body c q st)"
proof -
  let ?st' = "sync_body c q st"
  from pq_pop_SomeD[OF pop] have mem: "c \<in> set (pq st)" and q: "q = remove1 c (pq st)"
    and min: "is_min (pq st) c"
    by simp_all
  have sub: "set q \<subseteq> set (pq st)"
    unfolding q by (rule set_remove1_subset)
  from o mem obtain e where e: "log c = Some e" by (auto simp: s_order_inv_def)
  then have ce: "cand_date c = date e" by (simp add: cand_date_def)
  have least: "date e \<le> cand_date d" if "d \<in> set (pq st)" for d
    using is_min_cand_date[OF min that] o that e ce by (auto simp: s_order_inv_def)
  have old: "\<exists>a. l = Some a \<and> date a \<le> date e \<and> (\<forall>d\<in>set (pq st). date a \<le> cand_date d)"
    if "l \<in> set (printed (s_printer st))" for l
  proof -
    from o that obtain a where a: "l = Some a" "\<forall>d\<in>set (pq st). date a \<le> cand_date d"
      unfolding s_order_inv_def by blast
    from a(2) mem ce have "date a \<le> date e" by auto
    with a show ?thesis by blast
  qed
  have "\<forall>l\<in>set (printed (s_printer st)). \<exists>a. l = Some a \<and> date a \<le> date e"
    using old by blast
  moreover from o have "chronological (printed (s_printer st))" by (simp add: s_order_inv_def)
  ultimately have chron: "chronological (printed (s_printer st) @ [Some e])"
    by (intro chronological_snoc)
  show ?thesis
  proof (cases rule: sync_body_cases[of st c q])
    case stop
    have pe: "printed (s_printer ?st') = printed (s_printer st) @ [Some e]"
      by (simp add: stop(3) e)
    have 5: "\<forall>l\<in>set (printed (s_printer ?st')). \<exists>a. l = Some a \<and>
          (\<forall>d\<in>set (pq ?st'). date a \<le> cand_date d)"
    proof
      fix l assume "l \<in> set (printed (s_printer ?st'))"
      then consider "l = Some e" | "l \<in> set (printed (s_printer st))" by (auto simp: pe)
      then show "\<exists>a. l = Some a \<and> (\<forall>d\<in>set (pq ?st'). date a \<le> cand_date d)"
      proof cases
        case 1
        with least sub show ?thesis by (auto simp: stop(2))
      next
        case 2
        from old[OF this] sub show ?thesis by (auto simp: stop(2))
      qed
    qed
    from o sub stop(4) have "(\<forall>c\<in>set (pq ?st'). log c \<noteq> None) \<and>
      (\<forall>i. sorted (map date (upcoming (s_heap ?st' i)))) \<and>
      (\<forall>c\<in>set (pq ?st'). \<forall>f\<in>set (upcoming (s_heap ?st' (source c))). cand_date c \<le> date f)"
      unfolding s_order_inv_def stop(2) by auto
    with chron 5 show ?thesis unfolding s_order_inv_def pe by blast
  next
    case (refill e' es)
    let ?n = "\<lparr>log = Some e', source = source c\<rparr>"
    have pe: "printed (s_printer ?st') = printed (s_printer st) @ [Some e]"
      by (simp add: refill(4) e)
    from o have s: "sorted (map date (upcoming (s_heap st j)))" for j
      by (simp add: s_order_inv_def)
    have up: "set (upcoming (s_heap ?st' j)) \<subseteq> set (upcoming (s_heap st j))" for j
      using refill(2,5,6) by (cases "j = source c") auto
    from o mem refill(2) ce have ee': "date e \<le> date e'"
      by (auto simp: s_order_inv_def)
    have 1: "\<forall>d\<in>set (pq ?st'). log d \<noteq> None"
      using o sub by (auto simp: refill(3) s_order_inv_def)
    have 2: "\<forall>j. sorted (map date (upcoming (s_heap ?st' j)))"
    proof
      fix j show "sorted (map date (upcoming (s_heap ?st' j)))"
        using s[of j] s[of "source c"] refill(2,5,6) by (cases "j = source c") auto
    qed
    have 3: "\<forall>d\<in>set (pq ?st'). \<forall>f\<in>set (upcoming (s_heap ?st' (source d))). cand_date d \<le> date f"
    proof (intro ballI)
      fix d f assume d: "d \<in> set (pq ?st')" and f: "f \<in> set (upcoming (s_heap ?st' (source d)))"
      show "cand_date d \<le> date f"
      proof (cases "d = ?n")
        case True
        with f refill(5) have "f \<in> set es" by simp
        with s[of "source c"] refill(2) True show ?thesis by (auto simp: cand_date_def)
      next
        case False
        with d sub have "d \<in> set (pq st)" by (auto simp: refill(3))
        moreover from f up have "f \<in> set (upcoming (s_heap st (source d)))" by blast
        ultimately show ?thesis using o by (simp add: s_order_inv_def)
      qed
    qed
    have 5: "\<forall>l\<in>set (printed (s_printer ?st')). \<exists>a. l = Some a \<and>
          (\<forall>d\<in>set (pq ?st'). date a \<le> cand_date d)"
    proof
      fix l assume "l \<in> set (printed (s_printer ?st'))"
      then consider "l = Some e" | "l \<in> set (printed (s_printer st))" by (auto simp: pe)
      then show "\<exists>a. l = Some a \<and> (\<forall>d\<in>set (pq ?st'). date a \<le> cand_date d)"
      proof cases
        case 1
        with least sub ee' show ?thesis by (auto simp: refill(3) cand_date_def)
      next
        case 2
        from old[OF this] obtain a where a: "l = Some a" "date a \<le> date e"
          "\<forall>d\<in>set (pq st). date a \<le> cand_date d" by blast
        with ee' sub show ?thesis by (auto simp: refill(3) cand_date_def)
      qed
    qed
    from 1 2 3 chron 5 show ?thesis unfolding s_order_inv_def pe by blast
  qed
qed

lemma filled_order_inv:
  assumes "\<forall>s\<in>set srcs. \<not> drained s" "\<forall>s\<in>set srcs. upcoming s \<noteq> []"
    and "\<forall>s\<in>set srcs. sorted (map date (upcoming s))"
  shows "s_order_inv (filled srcs)"
proof -
  have nd: "\<not> drained (srcs ! i)" if "i < length srcs" for i
    using assms(1) that by simp
  have ne: "upcoming (srcs ! i) \<noteq> []" if "i < length srcs" for i
    using assms(2) that by simp
  have so: "sorted (map date (upcoming (srcs ! i)))" if "i < length srcs" for i
    using assms(3) that by simp
  have cur: "current (advance (srcs ! i)) = Some (hd (upcoming (srcs ! i)))"
    if "i < length srcs" for i
    using ne[OF that] nd[OF that]
    by (cases "upcoming (srcs ! i)") (simp_all add: advance_def current_def)
  have 1: "\<forall>c\<in>set (pq (filled srcs)). log c \<noteq> None"
    using cur by (auto simp: filled_fields)
  have 2: "\<forall>i. sorted (map date (upcoming (s_heap (filled srcs) i)))"
  proof
    fix i show "sorted (map date (upcoming (s_heap (filled srcs) i)))"
      using so[of i] ne[of i] by (cases "upcoming (srcs ! i)") (auto simp: filled_fields)
  qed
  have 3: "\<forall>c\<in>set (pq (filled srcs)).
      \<forall>f\<in>set (upcoming (s_heap (filled srcs) (source c))). cand_date c \<le> date f"
  proof (intro ballI)
    fix c f assume c: "c \<in> set (pq (filled srcs))"
      and f: "f \<in> set (upcoming (s_heap (filled srcs) (source c)))"
    from c obtain i where i: "i < length srcs" "c = \<lparr>log = Some (hd (upcoming (srcs ! i))), source = i\<rparr>"
      using cur by (auto simp: filled_fields)
    with f have "f \<in> set (tl (upcoming (srcs ! i)))" by (simp add: filled_fields)
    with so[OF i(1)] ne[OF i(1)] i(2) show "cand_date c \<le> date f"
      by (cases "upcoming (srcs ! i)") (auto simp: cand_date_def)
  qed
  from 1 2 3 show ?thesis by (simp add: s_order_inv_def filled_fields)
qed

lemma sync_chronological:
  assumes "\<forall>s\<in>set srcs. \<not> drained s" "\<forall>s\<in>set srcs. upcoming s \<noteq> []"
    and "\<forall>s\<in>set srcs. sorted (map date (upcoming s))"
  shows "chronological (printed (syncSortedMerge srcs))"
proof -
  have "s_order_inv (sync_loop (filled srcs)) \<and> pq (sync_loop (filled srcs)) = []"
    by (rule sync_loop_invariant[where I = s_order_inv, OF filled_order_inv[OF assms]])
      (rule s_order_inv_body)
  then show ?thesis
    by (simp add: s_order_inv_def syncSortedMerge_def filled_def)
qed

subsection \<open>The calls on the printer\<close>

lemma chronological_no_None: "chronological ls \<Longrightarrow> None \<notin> set ls"
  by (induction ls rule: chronological.induct) (auto split: option.splits)

lemma sync_events: "\<exists>ls. syncSortedMerge srcs = map Print ls @ [Done]"
proof -
  let ?I = "\<lambda>st::sync_state. Done \<notin> set (s_printer st)"
  let ?st = "initial_fill [0..<length srcs] \<lparr>s_heap = heap_of srcs, pq = [], s_printer = []\<rparr>"
  have "?I (sync_loop ?st) \<and> pq (sync_loop ?st) = []"
  proof (rule sync_loop_invariant[where I = ?I])
    show "?I ?st" by (simp add: initial_fill_printer)
  next
    fix st :: sync_state and c q assume "?I st"
    then show "?I (sync_body c q st)"
      by (cases rule: sync_body_cases[of st c q]) simp_all
  qed
  then have "Done \<notin> set (s_printer (sync_loop ?st))" by simp
  from only_prints[OF this] show ?thesis by (auto simp: syncSortedMerge_def)
qed

lemma sync_prints_false:
  assumes "\<forall>s\<in>set srcs. \<not> drained s" "\<exists>s\<in>set srcs. upcoming s = []"
  shows "None \<in> set (printed (syncSortedMerge srcs))"
proof -
  from assms(2) have "filter (\<lambda>s. upcoming s = []) srcs \<noteq> []"
    by (auto simp: filter_empty_conv)
  then have "0 < length (filter (\<lambda>s. upcoming s = []) srcs)" by simp
  then have "None \<in># replicate_mset (length (filter (\<lambda>s. upcoming s = []) srcs)) None"
    by simp
  then have "None \<in># mset (printed (syncSortedMerge srcs))"
    unfolding sync_complete[OF assms(1)] by simp
  then show ?thesis by simp
qed

lemma async_sound:
  assumes "\<forall>s\<in>set srcs. \<not> drained s"
  shows "\<exists>st'. asyncSortedMerge sched srcs = Some (Inr st')
     \<and> (\<exists>ls. printer st' = map Print ls @ [Done])
     \<and> mset (printed (printer st')) = mset (map Some (concat (map upcoming srcs)))
     \<and> ((\<forall>s\<in>set srcs. sorted (map date (upcoming s))) \<longrightarrow>
          chronological (printed (printer st')))"
proof -
  from async_complete[OF assms, of sched] obtain st' where
    st': "asyncSortedMerge sched srcs = Some (Inr st')"
      "mset (printed (printer st')) = mset (map Some (concat (map upcoming srcs)))"
    by blast
  from async_result[OF assms, of sched] st'(1) have "Done \<notin> set (butlast (printer st'))"
    "printer st' = butlast (printer st') @ [Done]"
    by (auto simp: head_inv_def batch_inv_def point_inv_def)
  with only_prints[of "butlast (printer st')"]
  have "\<exists>ls. printer st' = map Print ls @ [Done]" by metis
  moreover have "chronological (printed (printer st'))"
    if "\<forall>s\<in>set srcs. sorted (map date (upcoming s))"
    using async_chronological[OF assms that, of sched] st'(1) by auto
  ultimately show ?thesis using st' by blast
qed

text \<open>
  With more than fifty sources, none of them empty, the promise queue is full at the
  top of the pass after the fiftieth, and the admission of that pass makes it hold 51
  promises, all pending.
\<close>

lemma batch_reaches_51:
  assumes "\<forall>s\<in>set srcs. \<not> drained s" "50 < length srcs" "\<forall>s\<in>set srcs. upcoming s \<noteq> []"
  shows "\<exists>st. passes (length srcs * 10) sched 50 (initial srcs) = Inr st
           \<and> promiseQueueIsFull (promiseQueue st) 50
           \<and> admission False st \<in> set (run_points sched srcs 50)
           \<and> length (promiseQueue (admission False st)) = 51
           \<and> length (pending (admission False st)) = 51"
proof -
  from filling_passes[OF assms(1,3,2), of 50 sched] obtain st where
    st: "passes (length srcs * 10) sched 50 (initial srcs) = Inr st"
      "filling (length srcs) 50 st"
    by auto
  from st(2) have pr: "promiseQueue st = [0..<50]" and q: "priorityQueue st = []"
    and l: "logSources st = [0..<length srcs]"
    by (simp_all add: filling_def)
  from assms(2) l have c: "continueLoop st" by (auto simp: continueLoop_def)
  from assms(2) have full:
    "priorityQueueIsFull (priorityQueue st) (length srcs * 10) (promiseQueue st) = Inr False"
    by (simp add: priorityQueueIsFull_def pr q)
  have "admission False st \<in> set (pass_points (length srcs * 10) (sched 50) st)"
    by (simp add: pass_points_def full Let_def)
  with st(1) c have "admission False st \<in> set (run_points sched srcs 50)"
    by (simp add: run_points_def)
  moreover have "promiseQueueIsFull (promiseQueue st) 50"
    by (simp add: promiseQueueIsFull_def pr)
  moreover from filling_admission(2,3)[OF st(2) assms(2)]
  have "length (promiseQueue (admission False st)) = 51"
    "length (pending (admission False st)) = 51"
    by simp_all
  ultimately show ?thesis using st(1) by blast
qed

subsection \<open>A pass that starts with a full promise queue\<close>

text \<open>
  The callbacks of a batch leave \<^verbatim>\<open>last\<close> alone and only add to the priority queue.
  Each of them runs once: the buffer count of its source goes up by one when the
  source is not drained, and the entry of the source is then a candidate in the queue.
\<close>

lemma settle_last_entry [simp]:
  "last_entry (heap (settle i st) j) = last_entry (heap st j)"
  by (simp add: settle_def Let_def split: option.splits)

lemma settle_queue_mono: "set (priorityQueue st) \<subseteq> set (priorityQueue (settle i st))"
  by (auto simp: settle_queue)

lemma fold_settle_queue_mono:
  "set (priorityQueue st) \<subseteq> set (priorityQueue (fold settle is st))"
proof (induction "is" arbitrary: st)
  case Nil
  show ?case by simp
next
  case (Cons i "is")
  from settle_queue_mono[of st i] Cons[of "settle i st"] show ?case by auto
qed

lemma fold_settle_other:
  "i \<notin> set is \<Longrightarrow> bufferCount (heap (fold settle is st) i) = bufferCount (heap st i)"
  by (induction "is" arbitrary: st) auto

lemma fold_settle_last_entry [simp]:
  "last_entry (heap (fold settle is st) j) = last_entry (heap st j)"
  by (induction "is" arbitrary: st) auto

lemma fold_settle_delivers:
  assumes "distinct is" "i \<in> set is"
  shows "bufferCount (heap (fold settle is st) i)
           = bufferCount (heap st i) + (if drained (heap st i) then 0 else 1)"
    and "\<not> drained (heap st i) \<Longrightarrow>
           \<lparr>log = Some (last_entry (heap st i)), source = i\<rparr>
             \<in> set (priorityQueue (fold settle is st))"
  using assms
proof (induction "is" arbitrary: st)
  case Nil
  { case 1 then show ?case by simp }
  { case 2 then show ?case by simp }
next
  case (Cons j "is")
  { case 1
    show ?case
    proof (cases "i = j")
      case True
      with 1 have "i \<notin> set is" by simp
      from fold_settle_other[OF this, of "settle j st"] True show ?thesis by simp
    next
      case False
      with 1 have "distinct is" "i \<in> set is" by simp_all
      from Cons.IH(1)[OF this, of "settle j st"] False show ?thesis by simp
    qed }
  { case 2
    show ?case
    proof (cases "i = j")
      case True
      with 2 have "\<lparr>log = Some (last_entry (heap st i)), source = i\<rparr>
          \<in> set (priorityQueue (settle j st))"
        by (simp add: settle_queue)
      with fold_settle_queue_mono[of "settle j st" "is"] show ?thesis by auto
    next
      case False
      with 2 have "distinct is" "i \<in> set is" "\<not> drained (heap (settle j st) i)" by simp_all
      from Cons.IH(2)[OF this(3,1,2)] show ?thesis by simp
    qed }
qed

lemma admission_heap_loading:
  assumes "loading (heap st i)"
  shows "heap (admission full st) i = heap st i"
    and "i \<in> set (promiseQueue st) \<Longrightarrow> i \<in> set (promiseQueue (admission full st))"
proof -
  show "heap (admission full st) i = heap st i"
  proof (cases "findNextLogSourceToQueue (heap st) (logSources st) None")
    case None
    then show ?thesis by (simp add: admission_def addNextLogToQueue_def)
  next
    case (Some j)
    from findNext_Some[OF Some] assms have "j \<noteq> i" by auto
    with Some show ?thesis
      by (simp add: admission_def addNextLogToQueue_def queueLogFromSource_def)
  qed
  show "i \<in> set (promiseQueue (admission full st))" if "i \<in> set (promiseQueue st)"
    using that by (simp add: admission_def addNextLogToQueue_def split: option.splits)
qed

text \<open>
  A pass that starts with a full promise queue awaits the batch, the fetch it has just
  added included: at the gate no promise is left and no source is loading, and every
  promise that was in the queue at the top of the pass has delivered.
\<close>

lemma await_at_ceiling:
  assumes h: "head_inv m st" and c: "continueLoop st"
    and full: "promiseQueueIsFull (promiseQueue st) 50"
  shows "promiseQueue (gate_point m picks st) = []"
    and "\<forall>i. \<not> loading (heap (gate_point m picks st) i)"
    and "\<forall>i\<in>set (promiseQueue st).
           bufferCount (heap (gate_point m picks st) i)
             = bufferCount (heap st i) + (if drained (heap st i) then 0 else 1)"
    and "\<forall>i\<in>set (promiseQueue st). \<not> drained (heap st i) \<longrightarrow>
           \<lparr>log = Some (last_entry (heap st i)), source = i\<rparr>
             \<in> set (priorityQueue (gate_point m picks st))"
    and "\<exists>st'. tick m picks st = Inr st' \<and> promiseQueue st' = []
           \<and> (\<forall>i. \<not> loading (heap st' i))"
proof -
  let ?full = "m \<le> length (priorityQueue st) + length (promiseQueue st)"
  let ?b = "admission ?full st"
  let ?g = "gate_point m picks st"
  let ?is = "completion_order picks (promiseQueue ?b)"
  from h have p: "point_inv m st" and l: "\<forall>i\<in>set (promiseQueue st). loading (heap st i)"
    by (simp_all add: head_inv_def batch_inv_def)
  have b: "batch_inv m ?b" by (rule admission_batch_inv[OF h refl])
  from full admission_promiseQueue(2)[where full = ?full and st = st]
  have "50 \<le> length (promiseQueue ?b)" by (simp add: promiseQueueIsFull_def)
  then have "0 < length (promiseQueue ?b)" by linarith
  with full have "drains ?full (promiseQueueIsFull (promiseQueue st) 50) ?b"
    by (simp add: drains_def)
  then have g: "?g = await_all picks ?b"
    by (simp add: gate_point_def priorityQueueIsFull_Inr[OF p] drain_def)
  show pq: "promiseQueue ?g = []" by (simp add: g)
  from b show nl: "\<forall>i. \<not> loading (heap ?g i)"
    by (auto simp: g batch_inv_def point_inv_def)
  from b have d: "distinct ?is" by (simp add: batch_inv_def point_inv_def)
  have in_b: "i \<in> set ?is" "heap ?b i = heap st i" if "i \<in> set (promiseQueue st)" for i
    using that l admission_heap_loading[of st i ?full] by simp_all
  show "\<forall>i\<in>set (promiseQueue st).
           bufferCount (heap ?g i) = bufferCount (heap st i) + (if drained (heap st i) then 0 else 1)"
  proof
    fix i assume i: "i \<in> set (promiseQueue st)"
    from fold_settle_delivers(1)[OF d in_b(1)[OF i], of ?b] in_b(2)[OF i]
    show "bufferCount (heap ?g i) = bufferCount (heap st i) + (if drained (heap st i) then 0 else 1)"
      by (simp add: g await_all_def)
  qed
  show "\<forall>i\<in>set (promiseQueue st). \<not> drained (heap st i) \<longrightarrow>
           \<lparr>log = Some (last_entry (heap st i)), source = i\<rparr> \<in> set (priorityQueue ?g)"
  proof (intro ballI impI)
    fix i assume i: "i \<in> set (promiseQueue st)" and nd: "\<not> drained (heap st i)"
    from nd in_b(2)[OF i] have "\<not> drained (heap ?b i)" by simp
    from fold_settle_delivers(2)[OF d in_b(1)[OF i] this] in_b(2)[OF i]
    show "\<lparr>log = Some (last_entry (heap st i)), source = i\<rparr> \<in> set (priorityQueue ?g)"
      by (simp add: g await_all_def)
  qed
  from tick_head_inv[OF h c, of picks] obtain st' where st': "tick m picks st = Inr st'"
    by blast
  from st' obtain st3 where st3: "emission ?g = Inr st3" "st' = retire st3"
    by (auto simp: tick_gate_point[OF p] split: sum.splits)
  from emission_promiseQueue[OF st3(1)] pq st3(2) have "promiseQueue st' = []" by simp
  moreover from st3(1) nl have "\<forall>i. \<not> loading (heap st3 i)"
    by (auto simp: emission_def printNext_fields(6) split: if_splits)
  with st3(2) have "\<forall>i. \<not> loading (heap st' i)" by simp
  ultimately show "\<exists>st'. tick m picks st = Inr st' \<and> promiseQueue st' = []
           \<and> (\<forall>i. \<not> loading (heap st' i))"
    using st' by blast
qed

lemma gate_point_in_pass:
  assumes "point_inv m st"
  shows "gate_point m picks st \<in> set (pass_points m picks st)"
  by (simp add: pass_points_def gate_point_def priorityQueueIsFull_Inr[OF assms] Let_def)

section \<open>The claims\<close>

text \<open>
  Every claim is about the sources as they are handed to a merge: none of them is
  drained yet, and nothing is assumed of what they hold in the fields that the
  constructor does not set.
\<close>

text \<open>
  C1 says that both merges print in non-decreasing order of the timestamp whenever
  each source is in that order. The asynchronous merge does, for every schedule of
  completion. The synchronous merge does when no source is empty from the start; when
  one is, its first loop pushes the \<^verbatim>\<open>false\<close> that \<^verbatim>\<open>pop\<close> returned, and the second
  loop passes it to \<^verbatim>\<open>print\<close>, so that what is printed is not a sequence of entries
  in the order of their dates.
\<close>

theorem order_of_output:
  assumes "\<forall>s\<in>set srcs. \<not> drained s"
  shows "((\<forall>s\<in>set srcs. sorted (map date (upcoming s))) \<longrightarrow>
      (\<exists>st'. asyncSortedMerge sched srcs = Some (Inr st')
         \<and> chronological (printed (printer st')))
      \<and> ((\<forall>s\<in>set srcs. upcoming s \<noteq> []) \<longrightarrow>
           chronological (printed (syncSortedMerge srcs))))
   \<and> ((\<exists>s\<in>set srcs. upcoming s = []) \<longrightarrow>
        \<not> chronological (printed (syncSortedMerge srcs)))"
proof (intro conjI impI)
  assume s: "\<forall>s\<in>set srcs. sorted (map date (upcoming s))"
  from async_chronological[OF assms s]
  show "\<exists>st'. asyncSortedMerge sched srcs = Some (Inr st')
         \<and> chronological (printed (printer st'))" .
  assume "\<forall>s\<in>set srcs. upcoming s \<noteq> []"
  from sync_chronological[OF assms this s]
  show "chronological (printed (syncSortedMerge srcs))" .
next
  assume "\<exists>s\<in>set srcs. upcoming s = []"
  from sync_prints_false[OF assms this] chronological_no_None
  show "\<not> chronological (printed (syncSortedMerge srcs))" by blast
qed

theorem order_of_output_witness:
  "list_all (\<lambda>s. \<not> drained s) two_and_none
   \<and> list_all (\<lambda>s. sorted (map date (upcoming s))) two_and_none
   \<and> list_ex (\<lambda>s. upcoming s = []) two_and_none
   \<and> mset (printed (syncSortedMerge two_and_none))
       = {#Some (entry 3), Some (entry 4), None#}
   \<and> \<not> chronological (printed (syncSortedMerge two_and_none))
   \<and> (\<exists>st'. asyncSortedMerge in_order two_and_none = Some (Inr st')
         \<and> chronological (printed (printer st')))
   \<and> list_all (\<lambda>s. \<not> drained s) late_and_early
   \<and> list_all (\<lambda>s. sorted (map date (upcoming s))) late_and_early
   \<and> list_all (\<lambda>s. upcoming s \<noteq> []) late_and_early
   \<and> chronological (printed (syncSortedMerge late_and_early))"
proof -
  have f: "\<forall>s\<in>set two_and_none. \<not> drained s"
    and s: "\<forall>s\<in>set two_and_none. sorted (map date (upcoming s))"
    and e: "\<exists>s\<in>set two_and_none. upcoming s = []"
    by (simp_all add: two_and_none_def LogSource_def entry_def)
  have f': "\<forall>s\<in>set late_and_early. \<not> drained s"
    and s': "\<forall>s\<in>set late_and_early. sorted (map date (upcoming s))"
    and n': "\<forall>s\<in>set late_and_early. upcoming s \<noteq> []"
    by (simp_all add: late_and_early_def LogSource_def entry_def)
  have 1: "list_all (\<lambda>s. \<not> drained s) two_and_none"
    and 2: "list_all (\<lambda>s. sorted (map date (upcoming s))) two_and_none"
    and 3: "list_ex (\<lambda>s. upcoming s = []) two_and_none"
    by (simp_all add: two_and_none_def LogSource_def entry_def)
  have 4: "list_all (\<lambda>s. \<not> drained s) late_and_early"
    and 5: "list_all (\<lambda>s. sorted (map date (upcoming s))) late_and_early"
    and 6: "list_all (\<lambda>s. upcoming s \<noteq> []) late_and_early"
    by (simp_all add: late_and_early_def LogSource_def entry_def)
  have "printed (syncSortedMerge two_and_none) = [Some (entry 3), None, Some (entry 4)]"
    by code_simp
  then have m: "mset (printed (syncSortedMerge two_and_none))
       = {#Some (entry 3), Some (entry 4), None#}"
    by simp
  from order_of_output[OF f, of in_order] s e
  have a: "\<not> chronological (printed (syncSortedMerge two_and_none))"
    and b: "\<exists>st'. asyncSortedMerge in_order two_and_none = Some (Inr st')
         \<and> chronological (printed (printer st'))"
    by blast+
  from order_of_output[OF f', of in_order] s' n'
  have c: "chronological (printed (syncSortedMerge late_and_early))"
    by blast
  from 1 2 3 m a b 4 5 6 c show ?thesis by (intro conjI)
qed

text \<open>
  C2 says that both merges print as many entries as the sources produce, none lost
  and none twice. The asynchronous merge prints exactly the entries of the sources,
  for every schedule. The synchronous merge prints them too, and in addition one
  \<^verbatim>\<open>false\<close> for every source that is empty from the start: with such a source the
  number of calls of \<^verbatim>\<open>print\<close> exceeds the number of entries.
\<close>

theorem count_of_output:
  assumes "\<forall>s\<in>set srcs. \<not> drained s"
  shows "(\<exists>st'. asyncSortedMerge sched srcs = Some (Inr st')
      \<and> mset (printed (printer st')) = mset (map Some (concat (map upcoming srcs)))
      \<and> length (printed (printer st')) = length (concat (map upcoming srcs)))
   \<and> mset (printed (syncSortedMerge srcs))
       = mset (map Some (concat (map upcoming srcs)))
         + replicate_mset (length (filter (\<lambda>s. upcoming s = []) srcs)) None
   \<and> length (printed (syncSortedMerge srcs))
       = length (concat (map upcoming srcs)) + length (filter (\<lambda>s. upcoming s = []) srcs)"
proof (intro conjI)
  from async_complete[OF assms, of sched] obtain st' where
    st': "asyncSortedMerge sched srcs = Some (Inr st')"
      "mset (printed (printer st')) = mset (map Some (concat (map upcoming srcs)))"
    by blast
  from st'(2) have "size (mset (printed (printer st')))
      = size (mset (map Some (concat (map upcoming srcs))))"
    by simp
  then have "length (printed (printer st')) = length (concat (map upcoming srcs))" by simp
  with st' show "\<exists>st'. asyncSortedMerge sched srcs = Some (Inr st')
      \<and> mset (printed (printer st')) = mset (map Some (concat (map upcoming srcs)))
      \<and> length (printed (printer st')) = length (concat (map upcoming srcs))"
    by blast
  show m: "mset (printed (syncSortedMerge srcs))
       = mset (map Some (concat (map upcoming srcs)))
         + replicate_mset (length (filter (\<lambda>s. upcoming s = []) srcs)) None"
    by (rule sync_complete[OF assms])
  have "size (mset (printed (syncSortedMerge srcs)))
      = size (mset (map Some (concat (map upcoming srcs)))
         + replicate_mset (length (filter (\<lambda>s. upcoming s = []) srcs)) None)"
    by (simp only: m)
  then show "length (printed (syncSortedMerge srcs))
       = length (concat (map upcoming srcs)) + length (filter (\<lambda>s. upcoming s = []) srcs)"
    by simp
qed

theorem count_of_output_witness:
  "list_all (\<lambda>s. \<not> drained s) one_and_none
   \<and> concat (map upcoming one_and_none) = [entry 1]
   \<and> length (printed (syncSortedMerge one_and_none)) = 2
   \<and> mset (printed (syncSortedMerge one_and_none)) = {#Some (entry 1), None#}
   \<and> (\<exists>st'. asyncSortedMerge in_order one_and_none = Some (Inr st')
         \<and> length (printed (printer st')) = 1)"
proof -
  have f: "\<forall>s\<in>set one_and_none. \<not> drained s"
    by (simp add: one_and_none_def LogSource_def)
  have 1: "list_all (\<lambda>s. \<not> drained s) one_and_none"
    by (simp add: one_and_none_def LogSource_def)
  have 2: "concat (map upcoming one_and_none) = [entry 1]"
    by (simp add: one_and_none_def LogSource_def)
  have 3: "length (filter (\<lambda>s. upcoming s = []) one_and_none) = 1"
    by (simp add: one_and_none_def LogSource_def)
  note t = count_of_output[OF f, of in_order, unfolded 2 3]
  from t have a: "\<exists>st'. asyncSortedMerge in_order one_and_none = Some (Inr st')
         \<and> length (printed (printer st')) = 1"
    by auto
  from t have b: "mset (printed (syncSortedMerge one_and_none)) = {#Some (entry 1), None#}"
    by simp
  from t have c: "length (printed (syncSortedMerge one_and_none)) = 2"
    by simp
  from 1 2 c b a show ?thesis by (intro conjI)
qed

text \<open>
  C3, as stated: at no point does the frontier hold two resident candidates of the same
  source. This fails: after four passes over the two example sources, both candidates
  in the priority queue belong to the first source.
\<close>

theorem frontier_two_of_one_source:
  "resident (hd (run_points in_order late_and_early 4)) 0 = 2"
  by code_simp

text \<open>
  C3, amended: the frontier may hold several resident candidates of one source; at
  every point of a run their number is at most the ceiling of the priority queue,
  ten times the number of sources.
\<close>

theorem resident_bounded:
  assumes "\<forall>s\<in>set srcs. \<not> drained s" and "p \<in> set (run_points sched srcs n)"
  shows "resident p i \<le> length srcs * 10"
proof -
  from run_points_inv[OF assms] have "length (priorityQueue p) \<le> length srcs * 10"
    by (simp add: point_inv_def)
  with resident_le_queue[of p i] show ?thesis by simp
qed

theorem resident_bounded_witness:
  "list_all (\<lambda>s. \<not> drained s) late_and_early
   \<and> hd (run_points in_order late_and_early 4)
       \<in> set (run_points in_order late_and_early 4)
   \<and> resident (hd (run_points in_order late_and_early 4)) 0
       \<le> length late_and_early * 10"
proof -
  have f: "\<forall>s\<in>set late_and_early. \<not> drained s"
    by (simp add: late_and_early_def LogSource_def)
  have 1: "list_all (\<lambda>s. \<not> drained s) late_and_early"
    by (simp add: late_and_early_def LogSource_def)
  have "run_points in_order late_and_early 4 \<noteq> []"
    by (rule run_points_hd(1)[OF f])
  then have 2: "hd (run_points in_order late_and_early 4)
      \<in> set (run_points in_order late_and_early 4)"
    by (rule hd_in_set)
  from 1 2 resident_bounded[OF f 2, of 0] show ?thesis by (intro conjI)
qed

text \<open>
  C4, as stated: the number of fetches in flight never exceeds the ceiling 50 of
  \<^verbatim>\<open>promiseQueueIsFull\<close>, a new fetch being refused once the ceiling is reached.
  This fails: the code tests the ceiling at the top of the pass and lets only the
  ceiling of the priority queue decide on the admission. With 51 sources of one entry
  each, the promise queue is full at the top of the pass after the fiftieth, and the
  state after the admission of that pass is a point of the run with 51 pending
  promises.
\<close>

theorem promise_queue_overfull:
  "promiseQueueIsFull (promiseQueue (hd (run_points in_order fifty_one 50))) 50
   \<and> admission False (hd (run_points in_order fifty_one 50))
       \<in> set (run_points in_order fifty_one 50)
   \<and> length (pending (admission False (hd (run_points in_order fifty_one 50)))) = 51"
proof -
  have f: "\<forall>s\<in>set fifty_one. \<not> drained s"
    and ne: "\<forall>s\<in>set fifty_one. upcoming s \<noteq> []"
    and k: "50 < length fifty_one"
    by (simp_all add: fifty_one_def LogSource_def)
  from batch_reaches_51[OF f k ne, of in_order] obtain st where
    st: "passes (length fifty_one * 10) in_order 50 (initial fifty_one) = Inr st"
      "promiseQueueIsFull (promiseQueue st) 50"
      "admission False st \<in> set (run_points in_order fifty_one 50)"
      "length (pending (admission False st)) = 51"
    by blast
  from st(1) run_points_hd(2)[OF f, of in_order 50]
  have "hd (run_points in_order fifty_one 50) = st" by simp
  with st(2-4) show ?thesis by simp
qed

text \<open>
  C4, amended: the promise queue holds at most 50 promises at the top of every pass
  and at most 51 at every point of a run. A new fetch is not refused when the ceiling
  is reached: whenever the priority queue and the promise queue together are below
  the ceiling of the priority queue and \<^verbatim>\<open>findNextLogSourceToQueue\<close> finds a source,
  the fetch is issued, whatever the promise queue holds. Instead, a pass that starts
  with the ceiling reached awaits the whole batch. The state at the gate of such a
  pass is a point of the run in which the promise queue is empty and no source is
  loading, and every promise that was in the queue at the top of the pass has
  delivered: its callback has raised the buffer count of its source by one and has put
  the entry of the source into the priority queue, unless the source is drained, and
  then the buffer count is as it was. The pass ends without an error, with an empty
  promise queue and no source loading.
\<close>

theorem promise_queue_drained_at_ceiling:
  assumes "\<forall>s\<in>set srcs. \<not> drained s"
  shows "(p \<in> set (run_points sched srcs n) \<longrightarrow> length (promiseQueue p) \<le> 51)
   \<and> (passes (length srcs * 10) sched n (initial srcs) = Inr st \<longrightarrow>
        length (promiseQueue st) \<le> 50
        \<and> (continueLoop st
             \<and> length (priorityQueue st) + length (promiseQueue st) < length srcs * 10
             \<and> findNextLogSourceToQueue (heap st) (logSources st) None = Some j \<longrightarrow>
             queueLogFromSource j st \<in> set (run_points sched srcs n))
        \<and> (continueLoop st \<and> promiseQueueIsFull (promiseQueue st) 50 \<longrightarrow>
             gate_point (length srcs * 10) (sched n) st \<in> set (run_points sched srcs n)
             \<and> promiseQueue (gate_point (length srcs * 10) (sched n) st) = []
             \<and> (\<forall>i. \<not> loading (heap (gate_point (length srcs * 10) (sched n) st) i))
             \<and> (\<forall>i\<in>set (promiseQueue st).
                   bufferCount (heap (gate_point (length srcs * 10) (sched n) st) i)
                     = bufferCount (heap st i) + (if drained (heap st i) then 0 else 1))
             \<and> (\<forall>i\<in>set (promiseQueue st). \<not> drained (heap st i) \<longrightarrow>
                   \<lparr>log = Some (last_entry (heap st i)), source = i\<rparr>
                     \<in> set (priorityQueue (gate_point (length srcs * 10) (sched n) st)))
             \<and> (\<exists>st'. passes (length srcs * 10) sched (Suc n) (initial srcs) = Inr st'
                   \<and> promiseQueue st' = [] \<and> (\<forall>i. \<not> loading (heap st' i)))))"
proof (intro conjI impI)
  let ?m = "length srcs * 10"
  show "length (promiseQueue p) \<le> 51" if "p \<in> set (run_points sched srcs n)"
    using that by (rule run_points_promiseQueue_bound)
  assume st: "passes ?m sched n (initial srcs) = Inr st"
  from passes_promiseQueue_bound[OF st] show "length (promiseQueue st) \<le> 50" .
  from passes_head_inv[OF initial_head_inv[OF assms], of sched n] st
  have h: "head_inv ?m st" by auto
  then have p: "point_inv ?m st" by (simp add: head_inv_def batch_inv_def)
  show "queueLogFromSource j st \<in> set (run_points sched srcs n)"
    if a: "continueLoop st
      \<and> length (priorityQueue st) + length (promiseQueue st) < ?m
      \<and> findNextLogSourceToQueue (heap st) (logSources st) None = Some j"
  proof -
    from a have "priorityQueueIsFull (priorityQueue st) ?m (promiseQueue st) = Inr False"
      by (simp add: priorityQueueIsFull_Inr[OF p])
    then have "admission False st \<in> set (pass_points ?m (sched n) st)"
      by (simp add: pass_points_def Let_def)
    moreover from a have "admission False st = queueLogFromSource j st"
      by (simp add: admission_def addNextLogToQueue_def)
    ultimately show ?thesis using st a by (simp add: run_points_def)
  qed
  assume a: "continueLoop st \<and> promiseQueueIsFull (promiseQueue st) 50"
  then have c: "continueLoop st" and full: "promiseQueueIsFull (promiseQueue st) 50"
    by simp_all
  from gate_point_in_pass[OF p, of "sched n"] st c
  show "gate_point ?m (sched n) st \<in> set (run_points sched srcs n)"
    by (simp add: run_points_def)
  note w = await_at_ceiling[OF h c full, of "sched n"]
  from w(1) show "promiseQueue (gate_point ?m (sched n) st) = []" .
  from w(2) show "\<forall>i. \<not> loading (heap (gate_point ?m (sched n) st) i)" .
  from w(3) show "\<forall>i\<in>set (promiseQueue st).
      bufferCount (heap (gate_point ?m (sched n) st) i)
        = bufferCount (heap st i) + (if drained (heap st i) then 0 else 1)" .
  from w(4) show "\<forall>i\<in>set (promiseQueue st). \<not> drained (heap st i) \<longrightarrow>
      \<lparr>log = Some (last_entry (heap st i)), source = i\<rparr>
        \<in> set (priorityQueue (gate_point ?m (sched n) st))" .
  from w(5) st c
  show "\<exists>st'. passes ?m sched (Suc n) (initial srcs) = Inr st'
      \<and> promiseQueue st' = [] \<and> (\<forall>i. \<not> loading (heap st' i))"
    by simp
qed

theorem promise_queue_drained_at_ceiling_witness:
  "list_all (\<lambda>s. \<not> drained s) fifty_one
   \<and> passes (length fifty_one * 10) in_order 50 (initial fifty_one)
       = Inr (hd (run_points in_order fifty_one 50))
   \<and> continueLoop (hd (run_points in_order fifty_one 50))
   \<and> promiseQueueIsFull (promiseQueue (hd (run_points in_order fifty_one 50))) 50
   \<and> length (promiseQueue (hd (run_points in_order fifty_one 50))) \<le> 50
   \<and> length (priorityQueue (hd (run_points in_order fifty_one 50)))
       + length (promiseQueue (hd (run_points in_order fifty_one 50)))
       < length fifty_one * 10
   \<and> findNextLogSourceToQueue (heap (hd (run_points in_order fifty_one 50)))
       (logSources (hd (run_points in_order fifty_one 50))) None = Some 50
   \<and> queueLogFromSource 50 (hd (run_points in_order fifty_one 50))
       \<in> set (run_points in_order fifty_one 50)
   \<and> length (promiseQueue (queueLogFromSource 50 (hd (run_points in_order fifty_one 50))))
       = 51
   \<and> gate_point (length fifty_one * 10) (in_order 50) (hd (run_points in_order fifty_one 50))
       \<in> set (run_points in_order fifty_one 50)
   \<and> promiseQueue
       (gate_point (length fifty_one * 10) (in_order 50) (hd (run_points in_order fifty_one 50)))
       = []
   \<and> (\<forall>i. \<not> loading
         (heap (gate_point (length fifty_one * 10) (in_order 50)
            (hd (run_points in_order fifty_one 50))) i))
   \<and> 0 \<in> set (promiseQueue (hd (run_points in_order fifty_one 50)))
   \<and> \<not> drained (heap (hd (run_points in_order fifty_one 50)) 0)
   \<and> bufferCount (heap (hd (run_points in_order fifty_one 50)) 0) = 0
   \<and> bufferCount
       (heap (gate_point (length fifty_one * 10) (in_order 50)
          (hd (run_points in_order fifty_one 50))) 0) = 1
   \<and> \<lparr>log = Some (last_entry (heap (hd (run_points in_order fifty_one 50)) 0)), source = 0\<rparr>
       \<in> set (priorityQueue
           (gate_point (length fifty_one * 10) (in_order 50)
              (hd (run_points in_order fifty_one 50))))
   \<and> (\<exists>st'. passes (length fifty_one * 10) in_order (Suc 50) (initial fifty_one) = Inr st'
         \<and> promiseQueue st' = [] \<and> (\<forall>i. \<not> loading (heap st' i)))"
proof -
  let ?st = "hd (run_points in_order fifty_one 50)"
  let ?g = "gate_point (length fifty_one * 10) (in_order 50) ?st"
  have f: "\<forall>s\<in>set fifty_one. \<not> drained s"
    and ne: "\<forall>s\<in>set fifty_one. upcoming s \<noteq> []"
    and k: "50 < length fifty_one"
    by (simp_all add: fifty_one_def LogSource_def)
  have 0: "list_all (\<lambda>s. \<not> drained s) fifty_one"
    by (simp add: fifty_one_def LogSource_def list_all_iff)
  have 1: "passes (length fifty_one * 10) in_order 50 (initial fifty_one) = Inr ?st"
    by (rule run_points_hd(2)[OF f])
  from filling_passes[OF f ne k, of 50 in_order] 1
  have fl: "filling (length fifty_one) 50 ?st" by auto
  from fl k have 2: "continueLoop ?st" by (auto simp: filling_def continueLoop_def)
  from fl have 3: "promiseQueueIsFull (promiseQueue ?st) 50"
    by (simp add: filling_def promiseQueueIsFull_def)
  from fl have 4: "0 \<in> set (promiseQueue ?st)" by (simp add: filling_def)
  from k have "0 < length fifty_one" by linarith
  with fl have 5: "\<not> drained (heap ?st 0)" by (simp add: filling_def)
  from fl have 6: "bufferCount (heap ?st 0) = 0" by (simp add: filling_def)
  from fl k have 9: "length (priorityQueue ?st) + length (promiseQueue ?st)
      < length fifty_one * 10"
    by (simp add: filling_def)
  have 10: "findNextLogSourceToQueue (heap ?st) (logSources ?st) None = Some 50"
    by (rule filling_findNext[OF fl k])
  from fl have 11: "length (promiseQueue (queueLogFromSource 50 ?st)) = 51"
    by (simp add: filling_def)
  note t = promise_queue_drained_at_ceiling[OF f, where p = "queueLogFromSource 50 ?st"
      and sched = in_order and n = 50 and st = ?st and j = 50]
  note t1 = mp[OF conjunct2[OF t] 1]
  note t2 = conjunct1[OF t1]
  note a1 = mp[OF conjunct1[OF conjunct2[OF t1]] conjI[OF 2 conjI[OF 9 10]]]
  note t3 = mp[OF conjunct2[OF conjunct2[OF t1]] conjI[OF 2 3]]
  note g1 = conjunct1[OF t3]
  note g2 = conjunct1[OF conjunct2[OF t3]]
  note g3 = conjunct1[OF conjunct2[OF conjunct2[OF t3]]]
  note g4 = conjunct1[OF conjunct2[OF conjunct2[OF conjunct2[OF t3]]]]
  note g5 = conjunct1[OF conjunct2[OF conjunct2[OF conjunct2[OF conjunct2[OF t3]]]]]
  note g6 = conjunct2[OF conjunct2[OF conjunct2[OF conjunct2[OF conjunct2[OF t3]]]]]
  from bspec[OF g4 4] 5 6 have 7: "bufferCount (heap ?g 0) = 1" by simp
  from bspec[OF g5 4] 5
  have 8: "\<lparr>log = Some (last_entry (heap ?st 0)), source = 0\<rparr> \<in> set (priorityQueue ?g)"
    by simp
  from 0 1 2 3 t2 9 10 a1 11 g1 g2 g3 4 5 6 7 8 g6 show ?thesis by (intro conjI)
qed

text \<open>
  C5 says that when one source is empty from the start, both merges print the
  chronological merge of the other sources and nothing else, and call \<^verbatim>\<open>done\<close> once
  at the end. The asynchronous merge does. The synchronous merge calls \<^verbatim>\<open>done\<close> once
  at the end, but among its calls of \<^verbatim>\<open>print\<close> there is one with \<^verbatim>\<open>false\<close>.
\<close>

theorem source_empty_from_start:
  assumes "\<forall>s\<in>set (xs @ e # ys). \<not> drained s" and "upcoming e = []"
  shows "(\<exists>st'. asyncSortedMerge sched (xs @ e # ys) = Some (Inr st')
      \<and> (\<exists>ls. printer st' = map Print ls @ [Done])
      \<and> mset (printed (printer st')) = mset (map Some (concat (map upcoming (xs @ ys))))
      \<and> ((\<forall>s\<in>set (xs @ ys). sorted (map date (upcoming s))) \<longrightarrow>
           chronological (printed (printer st'))))
   \<and> (\<exists>ls. syncSortedMerge (xs @ e # ys) = map Print ls @ [Done])
   \<and> None \<in> set (printed (syncSortedMerge (xs @ e # ys)))"
proof (intro conjI)
  have c: "concat (map upcoming (xs @ e # ys)) = concat (map upcoming (xs @ ys))"
    by (simp add: assms(2))
  have s: "(\<forall>s\<in>set (xs @ e # ys). sorted (map date (upcoming s)))
      = (\<forall>s\<in>set (xs @ ys). sorted (map date (upcoming s)))"
    by (auto simp: assms(2))
  from async_sound[OF assms(1), of sched]
  show "\<exists>st'. asyncSortedMerge sched (xs @ e # ys) = Some (Inr st')
      \<and> (\<exists>ls. printer st' = map Print ls @ [Done])
      \<and> mset (printed (printer st')) = mset (map Some (concat (map upcoming (xs @ ys))))
      \<and> ((\<forall>s\<in>set (xs @ ys). sorted (map date (upcoming s))) \<longrightarrow>
           chronological (printed (printer st')))"
    unfolding c s .
  show "\<exists>ls. syncSortedMerge (xs @ e # ys) = map Print ls @ [Done]"
    by (rule sync_events)
  from assms(2) have "\<exists>s\<in>set (xs @ e # ys). upcoming s = []" by simp
  from sync_prints_false[OF assms(1) this]
  show "None \<in> set (printed (syncSortedMerge (xs @ e # ys)))" .
qed

theorem source_empty_from_start_witness:
  "none_and_two = [] @ hd none_and_two # tl none_and_two
   \<and> list_all (\<lambda>s. \<not> drained s) none_and_two
   \<and> upcoming (hd none_and_two) = []
   \<and> None \<in> set (printed (syncSortedMerge none_and_two))
   \<and> mset (printed (syncSortedMerge none_and_two))
       = {#None, Some (entry 1), Some (entry 2)#}
   \<and> (\<exists>ls. syncSortedMerge none_and_two = map Print ls @ [Done])
   \<and> map_option (map_sum id printer) (asyncSortedMerge in_order none_and_two)
       = Some (Inr [Print (Some (entry 1)), Print (Some (entry 2)), Done])"
proof -
  have 1: "none_and_two = [] @ hd none_and_two # tl none_and_two"
    by (simp add: none_and_two_def)
  have 2: "list_all (\<lambda>s. \<not> drained s) none_and_two"
    by (simp add: none_and_two_def LogSource_def)
  have f: "\<forall>s\<in>set ([] @ hd none_and_two # tl none_and_two). \<not> drained s"
    by (simp add: none_and_two_def LogSource_def)
  have 3: "upcoming (hd none_and_two) = []"
    by (simp add: none_and_two_def LogSource_def)
  have "printed (syncSortedMerge none_and_two) = [None, Some (entry 1), Some (entry 2)]"
    by code_simp
  then have 4: "mset (printed (syncSortedMerge none_and_two))
       = {#None, Some (entry 1), Some (entry 2)#}"
    by simp
  have 5: "map_option (map_sum id printer) (asyncSortedMerge in_order none_and_two)
       = Some (Inr [Print (Some (entry 1)), Print (Some (entry 2)), Done])"
    by code_simp
  note t = source_empty_from_start[OF f 3, of in_order, unfolded 1[symmetric]]
  note 6 = conjunct2[OF conjunct2[OF t]]
  note 7 = conjunct1[OF conjunct2[OF t]]
  from 1 2 3 6 4 7 5 show ?thesis by (intro conjI)
qed

text \<open>
  C6, as stated: an entry is emitted in a pass if and only if every live (not drained)
  source has at least one buffered entry at that point of the pass. This fails. In
  the second pass over the example the fetch from the empty source marks it drained,
  the batch is awaited, and at the gate the only live source has its entry in the
  queue; but the drained source is still in the array with an empty buffer, and the
  pass prints nothing.
\<close>

theorem gate_counts_drained_source:
  "allLiveSourcesHaveBeenRead
     (gate_point 20 (in_order 1) (hd (run_points in_order one_and_none 1)))
   \<and> length (priorityQueue
        (gate_point 20 (in_order 1) (hd (run_points in_order one_and_none 1)))) = 1
   \<and> \<not> allSourcesHaveBeenRead
        (gate_point 20 (in_order 1) (hd (run_points in_order one_and_none 1)))
   \<and> map_sum id printer (passes 20 in_order 2 (initial one_and_none)) = Inr []"
  by code_simp

text \<open>
  C6, amended: an entry is emitted in a pass if and only if every source that is in
  the array \<^verbatim>\<open>logSources\<close> at the gate has at least one buffered entry; the array
  holds the sources that were not drained at the end of the pass before, so a source
  drained by a fetch of this very pass still counts. When the gate holds, the pass
  prints a candidate of minimal date and takes it out of the queue; when it does not,
  the pass prints nothing.
\<close>

theorem emission_gate:
  assumes "\<forall>s\<in>set srcs. \<not> drained s"
    and "passes (length srcs * 10) sched n (initial srcs) = Inr st"
    and "continueLoop st"
  shows "(allSourcesHaveBeenRead (gate_point (length srcs * 10) (sched n) st) \<longrightarrow>
            (\<exists>c st'. passes (length srcs * 10) sched (Suc n) (initial srcs) = Inr st'
               \<and> c \<in> set (priorityQueue (gate_point (length srcs * 10) (sched n) st))
               \<and> is_min (priorityQueue (gate_point (length srcs * 10) (sched n) st)) c
               \<and> printer st' = printer st @ [Print (log c)]
               \<and> priorityQueue st'
                   = remove1 c (priorityQueue (gate_point (length srcs * 10) (sched n) st))))
       \<and> (\<not> allSourcesHaveBeenRead (gate_point (length srcs * 10) (sched n) st) \<longrightarrow>
            (\<exists>st'. passes (length srcs * 10) sched (Suc n) (initial srcs) = Inr st'
               \<and> printer st' = printer st
               \<and> priorityQueue st' = priorityQueue (gate_point (length srcs * 10) (sched n) st)))"
proof -
  from passes_head_inv[OF initial_head_inv[OF assms(1)], of sched n] assms(2)
  have h: "head_inv (length srcs * 10) st" by auto
  have "passes (length srcs * 10) sched (Suc n) (initial srcs)
          = tick (length srcs * 10) (sched n) st"
    by (simp add: assms(2,3))
  with pass_emits[OF h assms(3), of "sched n"] show ?thesis by simp
qed

theorem emission_gate_witness:
  "list_all (\<lambda>s. \<not> drained s) one_and_none
   \<and> passes (length one_and_none * 10) in_order 2 (initial one_and_none)
     = Inr (hd (run_points in_order one_and_none 2))
   \<and> continueLoop (hd (run_points in_order one_and_none 2))
   \<and> allSourcesHaveBeenRead
       (gate_point (length one_and_none * 10) (in_order 2)
          (hd (run_points in_order one_and_none 2)))
   \<and> (\<exists>c st'. passes (length one_and_none * 10) in_order (Suc 2)
                 (initial one_and_none) = Inr st'
         \<and> c \<in> set (priorityQueue (gate_point (length one_and_none * 10) (in_order 2)
                   (hd (run_points in_order one_and_none 2))))
         \<and> is_min (priorityQueue (gate_point (length one_and_none * 10) (in_order 2)
                   (hd (run_points in_order one_and_none 2)))) c
         \<and> printer st'
             = printer (hd (run_points in_order one_and_none 2)) @ [Print (log c)]
         \<and> priorityQueue st'
             = remove1 c (priorityQueue (gate_point (length one_and_none * 10) (in_order 2)
                   (hd (run_points in_order one_and_none 2)))))"
proof -
  let ?st = "hd (run_points in_order one_and_none 2)"
  have f: "\<forall>s\<in>set one_and_none. \<not> drained s"
    by (simp add: one_and_none_def LogSource_def)
  have 0: "list_all (\<lambda>s. \<not> drained s) one_and_none"
    by (simp add: one_and_none_def LogSource_def)
  have 1: "passes (length one_and_none * 10) in_order 2 (initial one_and_none)
     = Inr ?st"
    by (rule run_points_hd(2)[OF f])
  have 2: "continueLoop ?st" by code_simp
  have 3: "allSourcesHaveBeenRead (gate_point (length one_and_none * 10) (in_order 2) ?st)"
    by code_simp
  note 4 = mp[OF conjunct1[OF emission_gate[OF f 1 2]] 3]
  show ?thesis by (intro conjI 0 1 2 3 4)
qed

text \<open>
  C7: when the size of the priority queue exceeds the ceiling at the check, the run
  ends with the error; and this never happens, since at every point of a run the
  candidates in the queue and the pending promises together stay within the ceiling,
  so that every pass is reached without an error and the run does not end with it.
\<close>

theorem queue_within_ceiling:
  assumes "\<forall>s\<in>set srcs. \<not> drained s"
  shows "(priorityQueueIsFull q maxSize pr = Inl PriorityQueueExceededMaxSize
            \<longleftrightarrow> maxSize < length q)
   \<and> (maxSize < length (priorityQueue st) \<longrightarrow>
        main_loop maxSize sched k st = Some (Inl PriorityQueueExceededMaxSize))
   \<and> (p \<in> set (run_points sched srcs n) \<longrightarrow>
        length (priorityQueue p) + length (pending p) \<le> length srcs * 10)
   \<and> (\<exists>st'. passes (length srcs * 10) sched n (initial srcs) = Inr st')
   \<and> asyncSortedMerge sched srcs \<noteq> Some (Inl PriorityQueueExceededMaxSize)"
proof (intro conjI impI)
  show "priorityQueueIsFull q maxSize pr = Inl PriorityQueueExceededMaxSize
          \<longleftrightarrow> maxSize < length q"
    by (simp add: priorityQueueIsFull_def)
  show "main_loop maxSize sched k st = Some (Inl PriorityQueueExceededMaxSize)"
    if "maxSize < length (priorityQueue st)"
    using that by (rule main_loop_exceeded)
  show "length (priorityQueue p) + length (pending p) \<le> length srcs * 10"
    if "p \<in> set (run_points sched srcs n)"
    using run_points_inv[OF assms that] by (simp add: point_inv_def)
  show "\<exists>st'. passes (length srcs * 10) sched n (initial srcs) = Inr st'"
    using passes_head_inv[OF initial_head_inv[OF assms], of sched n] by blast
  show "asyncSortedMerge sched srcs \<noteq> Some (Inl PriorityQueueExceededMaxSize)"
    using async_result[OF assms, of sched] by auto
qed

theorem queue_within_ceiling_witness:
  "list_all (\<lambda>s. \<not> drained s) late_and_early
   \<and> (0::nat) < length (priorityQueue ((initial [])\<lparr>priorityQueue := [\<lparr>log = None, source = 0\<rparr>]\<rparr>))
   \<and> main_loop 0 in_order 0 ((initial [])\<lparr>priorityQueue := [\<lparr>log = None, source = 0\<rparr>]\<rparr>)
       = Some (Inl PriorityQueueExceededMaxSize)
   \<and> hd (run_points in_order late_and_early 4)
       \<in> set (run_points in_order late_and_early 4)
   \<and> length (priorityQueue (hd (run_points in_order late_and_early 4)))
       + length (pending (hd (run_points in_order late_and_early 4)))
       \<le> length late_and_early * 10"
proof -
  let ?st = "(initial [])\<lparr>priorityQueue := [\<lparr>log = None, source = 0\<rparr>]\<rparr>"
  let ?p = "hd (run_points in_order late_and_early 4)"
  have f: "\<forall>s\<in>set late_and_early. \<not> drained s"
    by (simp add: late_and_early_def LogSource_def)
  have 0: "list_all (\<lambda>s. \<not> drained s) late_and_early"
    by (simp add: late_and_early_def LogSource_def)
  have 1: "(0::nat) < length (priorityQueue ?st)" by simp
  have "run_points in_order late_and_early 4 \<noteq> []"
    by (rule run_points_hd(1)[OF f])
  then have 2: "?p \<in> set (run_points in_order late_and_early 4)"
    by (rule hd_in_set)
  note t = queue_within_ceiling[OF f, where maxSize = 0 and st = ?st and sched = in_order
      and k = 0 and p = ?p and n = 4]
  note 3 = mp[OF conjunct1[OF conjunct2[OF t]] 1]
  note 4 = mp[OF conjunct1[OF conjunct2[OF conjunct2[OF t]]] 2]
  show ?thesis by (intro conjI 0 1 2 3 4)
qed

text \<open>
  C8: at every point of a run no source has two promises in the promise queue, and a
  source whose flag \<open>loading\<close> is set has its promise there. The source chosen for a
  fetch at the top of a pass is not loading and has no promise in the queue, and the
  fetch sets its flag.
\<close>

theorem one_fetch_per_source:
  assumes "\<forall>s\<in>set srcs. \<not> drained s"
  shows "(p \<in> set (run_points sched srcs n) \<longrightarrow>
      distinct (promiseQueue p) \<and> distinct (pending p) \<and>
      (\<forall>i. loading (heap p i) \<longrightarrow> i \<in> set (promiseQueue p)))
   \<and> (passes (length srcs * 10) sched n (initial srcs) = Inr st \<longrightarrow>
      findNextLogSourceToQueue (heap st) (logSources st) None = Some i \<longrightarrow>
      \<not> loading (heap st i) \<and> i \<notin> set (promiseQueue st) \<and>
      loading (heap (queueLogFromSource i st) i))"
proof (intro conjI impI)
  assume "p \<in> set (run_points sched srcs n)"
  from run_points_inv[OF assms this]
  show "distinct (promiseQueue p)" "distinct (pending p)"
    "\<forall>i. loading (heap p i) \<longrightarrow> i \<in> set (promiseQueue p)"
    by (simp_all add: point_inv_def pending_def)
next
  assume st: "passes (length srcs * 10) sched n (initial srcs) = Inr st"
    and f: "findNextLogSourceToQueue (heap st) (logSources st) None = Some i"
  from passes_head_inv[OF initial_head_inv[OF assms], of sched n] st
  have h: "head_inv (length srcs * 10) st" by auto
  from findNext_Some[OF f] show "\<not> loading (heap st i)" by simp
  with h show "i \<notin> set (promiseQueue st)"
    by (auto simp: head_inv_def batch_inv_def)
  show "loading (heap (queueLogFromSource i st) i)" by simp
qed

theorem one_fetch_per_source_witness:
  "list_all (\<lambda>s. \<not> drained s) late_and_early
   \<and> hd (run_points in_order late_and_early 3)
       \<in> set (run_points in_order late_and_early 3)
   \<and> distinct (promiseQueue (hd (run_points in_order late_and_early 3)))
   \<and> passes (length late_and_early * 10) in_order 3 (initial late_and_early)
       = Inr (hd (run_points in_order late_and_early 3))
   \<and> findNextLogSourceToQueue (heap (hd (run_points in_order late_and_early 3)))
        (logSources (hd (run_points in_order late_and_early 3))) None = Some 0
   \<and> 0 \<notin> set (promiseQueue (hd (run_points in_order late_and_early 3)))"
proof -
  let ?p = "hd (run_points in_order late_and_early 3)"
  have f: "\<forall>s\<in>set late_and_early. \<not> drained s"
    by (simp add: late_and_early_def LogSource_def)
  have 0: "list_all (\<lambda>s. \<not> drained s) late_and_early"
    by (simp add: late_and_early_def LogSource_def)
  have "run_points in_order late_and_early 3 \<noteq> []"
    by (rule run_points_hd(1)[OF f])
  then have 1: "?p \<in> set (run_points in_order late_and_early 3)"
    by (rule hd_in_set)
  have 2: "passes (length late_and_early * 10) in_order 3 (initial late_and_early)
       = Inr ?p"
    by (rule run_points_hd(2)[OF f])
  have 3: "findNextLogSourceToQueue (heap ?p) (logSources ?p) None = Some 0"
    by code_simp
  note t = one_fetch_per_source[OF f, where p = ?p and sched = in_order and n = 3
      and st = ?p and i = 0]
  from mp[OF conjunct1[OF t] 1] have 4: "distinct (promiseQueue ?p)" by (rule conjunct1)
  from mp[OF mp[OF conjunct2[OF t] 2] 3] have 5: "0 \<notin> set (promiseQueue ?p)" by simp
  show ?thesis by (intro conjI 0 1 4 2 3 5)
qed

text \<open>
  C9: for every list of finite sources and every schedule the asynchronous merge
  returns. No source is left in the array and the priority queue is empty, and the
  calls on the printer are calls of \<^verbatim>\<open>print\<close> followed by one call of \<^verbatim>\<open>done\<close>.
\<close>

theorem async_terminates:
  assumes "\<forall>s\<in>set srcs. \<not> drained s"
  shows "\<exists>st'. asyncSortedMerge sched srcs = Some (Inr st')
         \<and> logSources st' = [] \<and> priorityQueue st' = []
         \<and> (\<exists>ls. printer st' = map Print ls @ [Done])"
proof -
  from async_result[OF assms, of sched] obtain st where
    st: "asyncSortedMerge sched srcs
           = Some (Inr (st\<lparr>printer := printer st @ [Done]\<rparr>))"
      "head_inv (length srcs * 10) st" "\<not> continueLoop st"
    by blast
  from st(2) have "Done \<notin> set (printer st)"
    by (simp add: head_inv_def batch_inv_def point_inv_def)
  from only_prints[OF this] obtain ls where "printer st = map Print ls" by blast
  with st(1,3) show ?thesis by (auto simp: continueLoop_def)
qed

theorem async_terminates_witness:
  "list_all (\<lambda>s. \<not> drained s) late_and_early
   \<and> (\<exists>st'. asyncSortedMerge in_order late_and_early = Some (Inr st')
         \<and> logSources st' = [] \<and> priorityQueue st' = []
         \<and> (\<exists>ls. printer st' = map Print ls @ [Done]))"
proof -
  have f: "\<forall>s\<in>set late_and_early. \<not> drained s"
    by (simp add: late_and_early_def LogSource_def)
  have 0: "list_all (\<lambda>s. \<not> drained s) late_and_early"
    by (simp add: late_and_early_def LogSource_def)
  from 0 async_terminates[OF f, of in_order] show ?thesis by (intro conjI)
qed

text \<open>
  C10: at every point of a run the field \<open>bufferCount\<close> of every source is the number
  of its candidates in the priority queue, so it is never negative. It starts at zero:
  whatever a source holds in the field when it is handed over, \<^verbatim>\<open>initializeSources\<close>
  has set it to zero in the first state of the run, in which the queue is empty.
\<close>

theorem bufferCount_counts_resident:
  assumes "\<forall>s\<in>set srcs. \<not> drained s"
  shows "(p \<in> set (run_points sched srcs n) \<longrightarrow>
      bufferCount (heap p i) = int (resident p i) \<and> 0 \<le> bufferCount (heap p i))
   \<and> initial srcs \<in> set (run_points sched srcs 0)
   \<and> bufferCount (heap (initial srcs) i) = 0
   \<and> resident (initial srcs) i = 0"
proof (intro conjI impI)
  assume "p \<in> set (run_points sched srcs n)"
  from run_points_inv[OF assms this] show "bufferCount (heap p i) = int (resident p i)"
    by (simp add: point_inv_def)
  then show "0 \<le> bufferCount (heap p i)" by simp
next
  show "initial srcs \<in> set (run_points sched srcs 0)"
    by (simp add: run_points_def)
  show "bufferCount (heap (initial srcs) i) = 0"
    by (simp add: initial_fields)
  show "resident (initial srcs) i = 0"
    by (simp add: resident_def initial_fields)
qed

theorem bufferCount_counts_resident_witness:
  "list_all (\<lambda>s. \<not> drained s) late_and_early
   \<and> bufferCount (late_and_early ! 0) = 7
   \<and> bufferCount (heap (initial late_and_early) 0) = 0
   \<and> hd (run_points in_order late_and_early 4)
       \<in> set (run_points in_order late_and_early 4)
   \<and> bufferCount (heap (hd (run_points in_order late_and_early 4)) 0) = 2
   \<and> resident (hd (run_points in_order late_and_early 4)) 0 = 2"
proof -
  let ?p = "hd (run_points in_order late_and_early 4)"
  have f: "\<forall>s\<in>set late_and_early. \<not> drained s"
    by (simp add: late_and_early_def LogSource_def)
  have 0: "list_all (\<lambda>s. \<not> drained s) late_and_early"
    by (simp add: late_and_early_def LogSource_def)
  have 1: "bufferCount (late_and_early ! 0) = 7"
    by (simp add: late_and_early_def LogSource_def)
  have "run_points in_order late_and_early 4 \<noteq> []"
    by (rule run_points_hd(1)[OF f])
  then have 2: "?p \<in> set (run_points in_order late_and_early 4)"
    by (rule hd_in_set)
  have 3: "resident ?p 0 = 2" by code_simp
  note t = bufferCount_counts_resident[OF f, where p = ?p and sched = in_order
      and n = 4 and i = 0]
  from mp[OF conjunct1[OF t] 2] 3 have 4: "bufferCount (heap ?p 0) = 2" by simp
  from t have 5: "bufferCount (heap (initial late_and_early) 0) = 0" by simp
  show ?thesis by (intro conjI 0 1 5 2 4 3)
qed

end
